theory Spec2Isabelle
  imports Main "HOL-Library.AList" "HOL-Library.Multiset" "HOL-Library.Word"
begin

section \<open>The JSON path engine of package jsonutil\<close>

text \<open>
  The package works on the dynamic values that \<^verbatim>\<open>encoding/json\<close> decodes into an
  \<^verbatim>\<open>interface{}\<close>: \<^verbatim>\<open>nil\<close>, \<^verbatim>\<open>bool\<close>, \<^verbatim>\<open>float64\<close>, \<^verbatim>\<open>string\<close>,
  \<^verbatim>\<open>map[string]interface{}\<close> and \<^verbatim>\<open>[]interface{}\<close>.

  \<^item> A \<^verbatim>\<open>float64\<close> is carried as its 64 bits. The path engine never does arithmetic on
    it; it only prints it, through \<^verbatim>\<open>strconv.FormatFloat\<close>.
  \<^item> A Go map is an association list. Its order is the order in which \<^verbatim>\<open>range\<close>
    enumerates the map (Go leaves it unspecified); lookup is \<open>map_of\<close> and assignment
    is \<open>AList.update\<close>. A Go map holds a key once: see \<open>wf_json\<close>.
  \<^item> A Go string is a \<open>string\<close>, one \<open>char\<close> for each byte. Where the code ranges
    over the runes of a string, the model decodes UTF-8 as Go does.
  \<^item> Values are trees, as \<^verbatim>\<open>json.Unmarshal\<close> builds them: no map or slice occurs
    twice in a value, and a value handed to a setter shares nothing with the tree.
\<close>

type_synonym float64 = "64 word"

datatype json =
    JNull
  | JBool bool
  | JNum float64
  | JStr string
  | JObj "(string \<times> json) list"
  | JArr "json list"

text \<open>
  The errors built with \<^verbatim>\<open>fmt.Errorf\<close>, one constructor for each message, holding
  the values the message prints. The first six are the navigator's (each with the path
  segment and its position), the others the mutator's.
\<close>

datatype fault =
    NilValue string nat
  | IndexOnMap string nat
  | KeyNotFound string nat string
  | IndexOutOfRange string nat int
  | KeyNotFoundInArray string nat string
  | CannotTraverse string nat json
  | PathEmpty
  | InvalidPath
  | ParentFault string fault
  | SetIndexOnMap
  | SetIndexOutOfRange int
  | SetKeyOnArray string
  | SetOnType json

text \<open>
  What a call does: it returns a value, returns an error, or panics (a slice expression
  out of range in \<^verbatim>\<open>parsePart\<close> is the only place of the package that can).
\<close>

datatype 'a result = Ok 'a | Err fault | Panic

subsection \<open>The standard library\<close>

text \<open>
  \<^verbatim>\<open>strconv.Atoi\<close>, as the Go documentation and source give it, for a 64-bit
  \<^verbatim>\<open>int\<close>: an optional sign, then one or more decimal digits and nothing else; a
  value outside the range of \<^verbatim>\<open>int\<close> is an error. \<open>None\<close> is the error.
\<close>

definition digit_of :: "char \<Rightarrow> nat option" where
  "digit_of c =
     (let n = (of_char c :: nat) in if 48 \<le> n \<and> n \<le> 57 then Some (n - 48) else None)"

fun digits_val :: "nat \<Rightarrow> string \<Rightarrow> nat option" where
  "digits_val n [] = Some n"
| "digits_val n (c # cs) =
     (case digit_of c of None \<Rightarrow> None | Some d \<Rightarrow> digits_val (10 * n + d) cs)"

definition Atoi :: "string \<Rightarrow> int option" where
  "Atoi s =
     (let neg = (case s of [] \<Rightarrow> False | c # _ \<Rightarrow> c = CHR ''-'');
          ds = (case s of [] \<Rightarrow> [] | c # r \<Rightarrow> if c = CHR ''-'' \<or> c = CHR ''+'' then r else s)
      in if ds = [] then None
         else (case digits_val 0 ds of
                 None \<Rightarrow> None
               | Some n \<Rightarrow>
                   (let v = (if neg then - int n else int n)
                    in if v < - (2 ^ 63) \<or> 2 ^ 63 \<le> v then None else Some v)))"

text \<open>
  The verb \<^verbatim>\<open>%d\<close> of \<^verbatim>\<open>fmt.Sprintf\<close> on a loop index, which is never negative:
  the decimal digits, with no sign and no leading zero.
\<close>

definition digit_char :: "nat \<Rightarrow> char" where
  "digit_char d = char_of (48 + d)"

function itoa :: "nat \<Rightarrow> string" where
  "itoa n = (if n < 10 then [digit_char n] else itoa (n div 10) @ [digit_char (n mod 10)])"
  by pat_completeness auto
termination
  by (relation "measure (\<lambda>n. n)") auto

declare itoa.simps [simp del]

text \<open>\<^verbatim>\<open>strings.HasPrefix\<close>, \<^verbatim>\<open>strings.HasSuffix\<close>, \<^verbatim>\<open>strings.Index\<close> for a
  one-character needle (\<open>None\<close> is Go's \<^verbatim>\<open>-1\<close>), \<^verbatim>\<open>strings.Join\<close> and the slice
  expression \<^verbatim>\<open>s[lo:hi]\<close> where it is in range.\<close>

definition HasPrefix :: "string \<Rightarrow> string \<Rightarrow> bool" where
  "HasPrefix s p = (take (length p) s = p)"

definition HasSuffix :: "string \<Rightarrow> string \<Rightarrow> bool" where
  "HasSuffix s p = (length p \<le> length s \<and> drop (length s - length p) s = p)"

fun Index :: "string \<Rightarrow> char \<Rightarrow> nat option" where
  "Index [] c = None"
| "Index (x # xs) c = (if x = c then Some 0 else map_option Suc (Index xs c))"

fun Join :: "string list \<Rightarrow> string \<Rightarrow> string" where
  "Join [] sep = []"
| "Join [s] sep = s"
| "Join (s # t # ss) sep = s @ sep @ Join (t # ss) sep"

definition slice :: "string \<Rightarrow> nat \<Rightarrow> nat \<Rightarrow> string" where
  "slice s lo hi = take (hi - lo) (drop lo s)"

subsection \<open>The tokenizer: parsePath\<close>

text \<open>
  \<^verbatim>\<open>for _, char := range path\<close> reads the path rune by rune. The decoder is that of
  package \<^verbatim>\<open>unicode/utf8\<close>: the first byte gives the length of the sequence
  (\<open>seqLen\<close>, 0 for a byte that starts none) and the range of the second byte; the
  bytes after it are continuation bytes. \<open>runeLen s\<close> is the width of the sequence at
  the head of \<open>s\<close>, or 0 when there is none. Where there is none the loop reads the
  rune U+FFFD and moves on by one byte.

  A rune is kept as the bytes that \<^verbatim>\<open>WriteRune\<close> writes for it: the sequence that
  was read, or \<open>RuneError\<close>, the encoding of U+FFFD. \<open>nextRune s\<close> is the rune at
  the head of \<open>s\<close> and the input after it.
\<close>

definition RuneError :: string where
  "RuneError = [CHR 0xEF, CHR 0xBF, CHR 0xBD]"

definition byte_in :: "nat \<Rightarrow> nat \<Rightarrow> char \<Rightarrow> bool" where
  "byte_in lo hi b = (lo \<le> of_char b \<and> (of_char b :: nat) \<le> hi)"

definition seqLen :: "char \<Rightarrow> nat" where
  "seqLen b0 =
     (if (of_char b0 :: nat) < 0x80 then 1
      else if byte_in 0xC2 0xDF b0 then 2
      else if byte_in 0xE0 0xEF b0 then 3
      else if byte_in 0xF0 0xF4 b0 then 4
      else 0)"

definition acceptLo :: "char \<Rightarrow> nat" where
  "acceptLo b0 =
     (if (of_char b0 :: nat) = 0xE0 then 0xA0
      else if (of_char b0 :: nat) = 0xF0 then 0x90
      else 0x80)"

definition acceptHi :: "char \<Rightarrow> nat" where
  "acceptHi b0 =
     (if (of_char b0 :: nat) = 0xED then 0x9F
      else if (of_char b0 :: nat) = 0xF4 then 0x8F
      else 0xBF)"

fun accepted :: "string \<Rightarrow> bool" where
  "accepted [b0] = True"
| "accepted [b0, b1] = byte_in (acceptLo b0) (acceptHi b0) b1"
| "accepted [b0, b1, b2] = (byte_in (acceptLo b0) (acceptHi b0) b1 \<and> byte_in 0x80 0xBF b2)"
| "accepted [b0, b1, b2, b3] =
     (byte_in (acceptLo b0) (acceptHi b0) b1 \<and> byte_in 0x80 0xBF b2 \<and> byte_in 0x80 0xBF b3)"
| "accepted _ = False"

definition runeLen :: "string \<Rightarrow> nat" where
  "runeLen s =
     (case s of
        [] \<Rightarrow> 0
      | b0 # _ \<Rightarrow>
          (let sz = seqLen b0
           in if sz \<noteq> 0 \<and> sz \<le> length s \<and> accepted (take sz s) then sz else 0))"

definition nextRune :: "string \<Rightarrow> string \<times> string" where
  "nextRune s =
     (let n = runeLen s
      in if n = 0 then (RuneError, drop 1 s) else (take n s, drop n s))"

text \<open>
  The loop of \<^verbatim>\<open>parsePath\<close> over the runes of the path, with its three variables;
  the equation for the empty input is the code after the loop.
\<close>

function parseLoop :: "string \<Rightarrow> string list \<Rightarrow> string \<Rightarrow> bool \<Rightarrow> string list" where
  "parseLoop [] parts current inBrackets =
     (if current \<noteq> [] then parts @ [current] else parts)"
| "parseLoop (b # bs) parts current inBrackets =
     (case nextRune (b # bs) of
        (char, rest) \<Rightarrow>
          if char = ''.'' then
            (if \<not> inBrackets then
               (if current \<noteq> [] then parseLoop rest (parts @ [current]) [] inBrackets
                else parseLoop rest parts current inBrackets)
             else parseLoop rest parts (current @ char) inBrackets)
          else if char = ''['' then
            (if current \<noteq> [] then parseLoop rest (parts @ [current]) [] True
             else parseLoop rest parts current True)
          else if char = '']'' then
            (if inBrackets then parseLoop rest (parts @ [''['' @ current @ '']'']) [] False
             else parseLoop rest parts current inBrackets)
          else parseLoop rest parts (current @ char) inBrackets)"
  by pat_completeness auto
termination
  by (relation "measure (\<lambda>(s, _, _, _). length s)")
     (auto simp: nextRune_def Let_def split: if_splits)

declare parseLoop.simps(2) [simp del]

definition parsePath :: "string \<Rightarrow> string list" where
  "parsePath path = parseLoop path [] [] False"

subsection \<open>The segment parser: parsePart\<close>

text \<open>
  The result is \<open>(key, index, isArray)\<close>. In the second branch the slice
  \<^verbatim>\<open>part[idx+1 : strings.Index(part, "]")]\<close> panics when the segment has no closing
  bracket, or has its first one before the opening bracket.
\<close>

definition parsePart :: "string \<Rightarrow> (string \<times> int \<times> bool) result" where
  "parsePart part =
     (if HasPrefix part ''['' \<and> HasSuffix part '']'' then
        (case Atoi (slice part 1 (length part - 1)) of
           None \<Rightarrow> Ok ([], - 1, False)
         | Some idx \<Rightarrow> Ok ([], idx, True))
      else
        (case Index part (CHR ''['') of
           None \<Rightarrow> Ok (part, - 1, False)
         | Some idx \<Rightarrow>
             (case Index part (CHR '']'') of
                None \<Rightarrow> Panic
              | Some close \<Rightarrow>
                  if close < idx + 1 then Panic
                  else (case Atoi (slice part (idx + 1) close) of
                          None \<Rightarrow> Ok (take idx part, - 1, False)
                        | Some n \<Rightarrow> Ok (take idx part, n, True)))))"

subsection \<open>The navigator: GetValueByPath\<close>

text \<open>The inner loop over the elements of a slice: the value under \<open>key\<close> in the
  first element that is a map holding \<open>key\<close>.\<close>

fun findInElems :: "json list \<Rightarrow> string \<Rightarrow> json option" where
  "findInElems [] key = None"
| "findInElems (item # items) key =
     (case item of
        JObj itemMap \<Rightarrow>
          (case map_of itemMap key of
             Some val \<Rightarrow> Some val
           | None \<Rightarrow> findInElems items key)
      | _ \<Rightarrow> findInElems items key)"

text \<open>The loop over the segments, \<open>i\<close> the position of the segment at hand.\<close>

fun getLoop :: "json \<Rightarrow> nat \<Rightarrow> string list \<Rightarrow> json result" where
  "getLoop current i [] = Ok current"
| "getLoop current i (part # rest) =
     (case current of
        JNull \<Rightarrow> Err (NilValue part i)
      | JObj v \<Rightarrow>
          (case parsePart part of
             Panic \<Rightarrow> Panic
           | Err e \<Rightarrow> Err e
           | Ok (key, index, isArray) \<Rightarrow>
               if isArray then Err (IndexOnMap part i)
               else (case map_of v key of
                       None \<Rightarrow> Err (KeyNotFound part i key)
                     | Some next \<Rightarrow> getLoop next (i + 1) rest))
      | JArr v \<Rightarrow>
          (case parsePart part of
             Panic \<Rightarrow> Panic
           | Err e \<Rightarrow> Err e
           | Ok (key, index, isArray) \<Rightarrow>
               if isArray then
                 (if index < 0 \<or> index \<ge> int (length v) then Err (IndexOutOfRange part i index)
                  else getLoop (v ! nat index) (i + 1) rest)
               else (case findInElems v key of
                       None \<Rightarrow> Err (KeyNotFoundInArray part i key)
                     | Some next \<Rightarrow> getLoop next (i + 1) rest))
      | _ \<Rightarrow> Err (CannotTraverse part i current))"

definition GetValueByPath :: "json \<Rightarrow> string \<Rightarrow> json result" where
  "GetValueByPath data path = (if path = [] then Ok data else getLoop data 0 (parsePath path))"

definition HasPath :: "json \<Rightarrow> string \<Rightarrow> bool result" where
  "HasPath data path =
     (case GetValueByPath data path of Ok _ \<Rightarrow> Ok True | Err _ \<Rightarrow> Ok False | Panic \<Rightarrow> Panic)"

subsection \<open>The mutator: SetValueByPath\<close>

text \<open>
  \<^verbatim>\<open>setValueAtPath\<close> assigns into the map or the slice it is given. Both are
  references, so the caller sees the assignment; the model returns the container as it
  is after the call, next to the error.
\<close>

definition setValueAtPath :: "json \<Rightarrow> string \<Rightarrow> json \<Rightarrow> json \<times> unit result" where
  "setValueAtPath data part val =
     (case parsePart part of
        Panic \<Rightarrow> (data, Panic)
      | Err e \<Rightarrow> (data, Err e)
      | Ok (key, index, isArray) \<Rightarrow>
          (case data of
             JObj v \<Rightarrow>
               if isArray then (data, Err SetIndexOnMap)
               else (JObj (AList.update key val v), Ok ())
           | JArr v \<Rightarrow>
               if isArray then
                 (if index < 0 \<or> index \<ge> int (length v) then (data, Err (SetIndexOutOfRange index))
                  else (JArr (v[nat index := val]), Ok ()))
               else (data, Err (SetKeyOnArray key))
           | _ \<Rightarrow> (data, Err (SetOnType data))))"

text \<open>
  \<^verbatim>\<open>SetValueByPath\<close> fetches the parent with \<^verbatim>\<open>GetValueByPath\<close> and assigns into
  it. The parent it gets is the map or slice that sits in the tree, so the tree itself
  changes. In the model a tree is a value, and the change is written back:
  \<open>storeAt current parts new\<close> is \<open>current\<close> with \<open>new\<close> in the place where the
  loop of \<^verbatim>\<open>GetValueByPath\<close> arrives along \<open>parts\<close>. It takes the same branch as
  \<open>getLoop\<close> at every segment (\<open>findElemIndex\<close> is the position at which
  \<open>findInElems\<close> stops), and is only used where that loop has returned a value.
\<close>

fun findElemIndex :: "json list \<Rightarrow> string \<Rightarrow> nat option" where
  "findElemIndex [] key = None"
| "findElemIndex (item # items) key =
     (case item of
        JObj itemMap \<Rightarrow>
          (case map_of itemMap key of
             Some val \<Rightarrow> Some 0
           | None \<Rightarrow> map_option Suc (findElemIndex items key))
      | _ \<Rightarrow> map_option Suc (findElemIndex items key))"

fun storeAt :: "json \<Rightarrow> string list \<Rightarrow> json \<Rightarrow> json" where
  "storeAt current [] new = new"
| "storeAt current (part # rest) new =
     (case current of
        JObj v \<Rightarrow>
          (case parsePart part of
             Ok (key, index, isArray) \<Rightarrow>
               (case map_of v key of
                  Some next \<Rightarrow>
                    if isArray then current
                    else JObj (AList.update key (storeAt next rest new) v)
                | None \<Rightarrow> current)
           | _ \<Rightarrow> current)
      | JArr v \<Rightarrow>
          (case parsePart part of
             Ok (key, index, isArray) \<Rightarrow>
               if isArray then
                 (if index < 0 \<or> index \<ge> int (length v) then current
                  else JArr (v[nat index := storeAt (v ! nat index) rest new]))
               else
                 (case findElemIndex v key of
                    None \<Rightarrow> current
                  | Some j \<Rightarrow>
                      (case v ! j of
                         JObj itemMap \<Rightarrow>
                           (case map_of itemMap key of
                              Some next \<Rightarrow>
                                JArr (v[j := JObj (AList.update key (storeAt next rest new) itemMap)])
                            | None \<Rightarrow> current)
                       | _ \<Rightarrow> current))
           | _ \<Rightarrow> current)
      | _ \<Rightarrow> current)"

text \<open>The result is the tree after the call and what the call returned.\<close>

definition SetValueByPath :: "json \<Rightarrow> string \<Rightarrow> json \<Rightarrow> json \<times> unit result" where
  "SetValueByPath data path val =
     (if path = [] then (data, Err PathEmpty)
      else
        (let parts = parsePath path in
         if length parts = 0 then (data, Err InvalidPath)
         else if length parts = 1 then setValueAtPath data (parts ! 0) val
         else
           (let parentPath = Join (take (length parts - 1) parts) ''.'';
                lastPart = parts ! (length parts - 1)
            in case GetValueByPath data parentPath of
                 Err e \<Rightarrow> (data, Err (ParentFault parentPath e))
               | Panic \<Rightarrow> (data, Panic)
               | Ok parent \<Rightarrow>
                   (case setValueAtPath parent lastPart val of
                      (parent', r) \<Rightarrow> (storeAt data (parsePath parentPath) parent', r)))))"

subsection \<open>The finder: FindPaths and GetAllPaths\<close>

record FindOptions =
  KeyPattern :: string
  ValuePattern :: string
  ExactValue :: string
  ValueType :: string

text \<open>The zero value \<^verbatim>\<open>FindOptions{}\<close>.\<close>

definition no_filter :: FindOptions where
  "no_filter = \<lparr>KeyPattern = [], ValuePattern = [], ExactValue = [], ValueType = []\<rparr>"

text \<open>
  What the finder calls in the standard library is a parameter of the model:
  \<^item> \<open>MatchString pattern s\<close> is the first result of \<^verbatim>\<open>regexp.MatchString\<close> (the code
    drops the error, and the result is \<^verbatim>\<open>false\<close> when the pattern does not compile);
  \<^item> \<open>FormatFloat v\<close> is \<^verbatim>\<open>strconv.FormatFloat(v, 'f', -1, 64)\<close>;
  \<^item> \<open>Marshal v\<close> is the text \<^verbatim>\<open>json.Marshal\<close> gives for a map or a slice.
\<close>

record stdlib =
  MatchString :: "string \<Rightarrow> string \<Rightarrow> bool"
  FormatFloat :: "float64 \<Rightarrow> string"
  Marshal :: "json \<Rightarrow> string"

definition getValueType :: "json \<Rightarrow> string" where
  "getValueType val =
     (case val of
        JNull \<Rightarrow> ''null''
      | JStr _ \<Rightarrow> ''string''
      | JNum _ \<Rightarrow> ''number''
      | JBool _ \<Rightarrow> ''bool''
      | JObj _ \<Rightarrow> ''object''
      | JArr _ \<Rightarrow> ''array'')"

definition convertToString :: "stdlib \<Rightarrow> json \<Rightarrow> string" where
  "convertToString lib val =
     (case val of
        JNull \<Rightarrow> []
      | JStr v \<Rightarrow> v
      | JNum v \<Rightarrow> FormatFloat lib v
      | JBool v \<Rightarrow> (if v then ''true'' else ''false'')
      | _ \<Rightarrow> Marshal lib val)"

text \<open>The options are a pointer: \<open>None\<close> is \<^verbatim>\<open>nil\<close>.\<close>

definition matchesOptions :: "stdlib \<Rightarrow> json \<Rightarrow> string \<Rightarrow> FindOptions option \<Rightarrow> bool" where
  "matchesOptions lib val key options =
     (case options of
        None \<Rightarrow> False
      | Some opts \<Rightarrow>
          if KeyPattern opts \<noteq> [] \<and> key \<noteq> [] \<and> \<not> MatchString lib (KeyPattern opts) key
          then False
          else if ValueType opts \<noteq> [] \<and> getValueType val \<noteq> ValueType opts then False
          else if ExactValue opts \<noteq> [] \<and> convertToString lib val \<noteq> ExactValue opts then False
          else if ValuePattern opts \<noteq> []
                  \<and> \<not> MatchString lib (ValuePattern opts) (convertToString lib val)
          then False
          else True)"

text \<open>
  The recursive walk, with one function for each of its two \<^verbatim>\<open>range\<close> loops. The
  slice \<^verbatim>\<open>*paths\<close> is passed through the calls; the result is that slice and the
  error returned.
\<close>

function findPathsRecursive ::
    "stdlib \<Rightarrow> json \<Rightarrow> string \<Rightarrow> FindOptions option \<Rightarrow> string list
      \<Rightarrow> string list \<times> fault option"
  and findPathsMap ::
    "stdlib \<Rightarrow> (string \<times> json) list \<Rightarrow> string \<Rightarrow> FindOptions option \<Rightarrow> string list
      \<Rightarrow> string list \<times> fault option"
  and findPathsSlice ::
    "stdlib \<Rightarrow> json list \<Rightarrow> nat \<Rightarrow> string \<Rightarrow> FindOptions option \<Rightarrow> string list
      \<Rightarrow> string list \<times> fault option"
where
  "findPathsRecursive lib data currentPath options paths =
     (case data of
        JObj v \<Rightarrow> findPathsMap lib v currentPath options paths
      | JArr v \<Rightarrow> findPathsSlice lib v 0 currentPath options paths
      | _ \<Rightarrow> (paths, None))"
| "findPathsMap lib [] currentPath options paths = (paths, None)"
| "findPathsMap lib ((key, val) # rest) currentPath options paths =
     (let newPath = (if currentPath \<noteq> [] then currentPath @ ''.'' else currentPath) @ key;
          paths1 = (if matchesOptions lib val key options then paths @ [newPath] else paths)
      in case findPathsRecursive lib val newPath options paths1 of
           (paths2, Some err) \<Rightarrow> (paths2, Some err)
         | (paths2, None) \<Rightarrow> findPathsMap lib rest currentPath options paths2)"
| "findPathsSlice lib [] i currentPath options paths = (paths, None)"
| "findPathsSlice lib (val # rest) i currentPath options paths =
     (let newPath = currentPath @ ''['' @ itoa i @ '']'';
          paths1 = (if matchesOptions lib val [] options then paths @ [newPath] else paths)
      in case findPathsRecursive lib val newPath options paths1 of
           (paths2, Some err) \<Rightarrow> (paths2, Some err)
         | (paths2, None) \<Rightarrow> findPathsSlice lib rest (i + 1) currentPath options paths2)"
  by pat_completeness auto
termination
  by (relation "measure (\<lambda>x. case x of
          Inl (_, d, _, _, _) \<Rightarrow> size d
        | Inr (Inl (_, m, _, _, _)) \<Rightarrow> size_list (size_prod (\<lambda>_. 0) size) m
        | Inr (Inr (_, xs, _, _, _, _)) \<Rightarrow> size_list size xs)") auto

definition FindPaths :: "stdlib \<Rightarrow> json \<Rightarrow> FindOptions option \<Rightarrow> string list \<times> fault option" where
  "FindPaths lib data options =
     (let options' = (case options of None \<Rightarrow> Some no_filter | Some opts \<Rightarrow> Some opts)
      in findPathsRecursive lib data [] options' [])"

function getAllPathsRecursive :: "json \<Rightarrow> string \<Rightarrow> string list \<Rightarrow> string list"
  and getAllPathsMap :: "(string \<times> json) list \<Rightarrow> string \<Rightarrow> string list \<Rightarrow> string list"
  and getAllPathsSlice :: "json list \<Rightarrow> nat \<Rightarrow> string \<Rightarrow> string list \<Rightarrow> string list"
where
  "getAllPathsRecursive data currentPath paths =
     (case data of
        JObj v \<Rightarrow> getAllPathsMap v currentPath paths
      | JArr v \<Rightarrow> getAllPathsSlice v 0 currentPath paths
      | _ \<Rightarrow> paths)"
| "getAllPathsMap [] currentPath paths = paths"
| "getAllPathsMap ((key, val) # rest) currentPath paths =
     (let newPath = (if currentPath \<noteq> [] then currentPath @ ''.'' else currentPath) @ key
      in getAllPathsMap rest currentPath (getAllPathsRecursive val newPath (paths @ [newPath])))"
| "getAllPathsSlice [] i currentPath paths = paths"
| "getAllPathsSlice (val # rest) i currentPath paths =
     (let newPath = currentPath @ ''['' @ itoa i @ '']''
      in getAllPathsSlice rest (i + 1) currentPath
           (getAllPathsRecursive val newPath (paths @ [newPath])))"
  by pat_completeness auto
termination
  by (relation "measure (\<lambda>x. case x of
          Inl (d, _, _) \<Rightarrow> size d
        | Inr (Inl (m, _, _)) \<Rightarrow> size_list (size_prod (\<lambda>_. 0) size) m
        | Inr (Inr (xs, _, _, _)) \<Rightarrow> size_list size xs)") auto

definition GetAllPaths :: "json \<Rightarrow> string list" where
  "GetAllPaths data = getAllPathsRecursive data [] []"

section \<open>Notions used in the statements\<close>

subsection \<open>Shapes of segments\<close>

text \<open>
  A segment is \<open>plain\<close> when it holds no bracket, and \<open>bracketed\<close> when it is
  \<open>[c]\<close> for a plain \<open>c\<close>. \<open>flush\<close> is what the tokenizer does with pending text.
\<close>

definition plain :: "string \<Rightarrow> bool" where
  "plain s = (CHR ''['' \<notin> set s \<and> CHR '']'' \<notin> set s)"

definition bracketed :: "string \<Rightarrow> bool" where
  "bracketed s =
     (2 \<le> length s \<and> hd s = CHR ''['' \<and> last s = CHR '']'' \<and> plain (butlast (tl s)))"

definition seg_ok :: "string \<Rightarrow> bool" where
  "seg_ok s = ((s \<noteq> [] \<and> plain s) \<or> bracketed s)"

text \<open>\<^verbatim>\<open>utf8.ValidString\<close>: the string is a sequence of well-formed UTF-8 sequences.\<close>

function valid_utf8 :: "string \<Rightarrow> bool" where
  "valid_utf8 [] = True"
| "valid_utf8 (b # bs) =
     (if runeLen (b # bs) = 0 then False else valid_utf8 (drop (runeLen (b # bs)) (b # bs)))"
  by pat_completeness auto
termination
  by (relation "measure length") auto

declare valid_utf8.simps(2) [simp del]

text \<open>What the tokenizer emits: text without brackets, or such text between brackets.\<close>

definition tok_seg :: "string \<Rightarrow> bool" where
  "tok_seg s = ((s \<noteq> [] \<and> plain s \<and> valid_utf8 s) \<or>
                (\<exists>c. s = CHR ''['' # c @ '']'' \<and> plain c \<and> valid_utf8 c))"

definition dotfree :: "string \<Rightarrow> bool" where
  "dotfree s = (CHR ''.'' \<notin> set s)"

definition rejoinable :: "string \<Rightarrow> bool" where
  "rejoinable s = ((\<exists>c. s = CHR ''['' # c @ '']'' \<and> plain c \<and> valid_utf8 c) \<or>
                   (s \<noteq> [] \<and> plain s \<and> dotfree s \<and> valid_utf8 s))"

definition flush :: "string list \<Rightarrow> string \<Rightarrow> string list" where
  "flush parts current = (if current \<noteq> [] then parts @ [current] else parts)"

subsection \<open>Trees that Go can build\<close>

text \<open>
  A Go map holds a key once, and the length of a slice is an \<^verbatim>\<open>int\<close>. \<open>all_keys P\<close>
  says that \<open>P\<close> holds of every key of every map of a tree.
\<close>

fun wf_json :: "json \<Rightarrow> bool" where
  "wf_json (JObj m) = (distinct (map fst m) \<and> list_all (\<lambda>kv. wf_json (snd kv)) m)"
| "wf_json (JArr xs) = (int (length xs) < 2 ^ 63 \<and> list_all wf_json xs)"
| "wf_json _ = True"

fun all_keys :: "(string \<Rightarrow> bool) \<Rightarrow> json \<Rightarrow> bool" where
  "all_keys P (JObj m) = list_all (\<lambda>kv. P (fst kv) \<and> all_keys P (snd kv)) m"
| "all_keys P (JArr xs) = list_all (all_keys P) xs"
| "all_keys P _ = True"

text \<open>
  Go fixes no order for \<^verbatim>\<open>range\<close> over a map, and two loops over one map may see
  its entries in two orders. \<open>same_value t t'\<close>: the two trees are one Go value, the
  entries of each map listed in some order in \<open>t\<close> and in some order in \<open>t'\<close>.
\<close>

inductive same_value :: "json \<Rightarrow> json \<Rightarrow> bool" where
  same: "same_value d d"
| arr: "list_all2 same_value xs ys \<Longrightarrow> same_value (JArr xs) (JArr ys)"
| obj: "list_all2 (\<lambda>a b. fst a = fst b \<and> same_value (snd a) (snd b)) m m'' \<Longrightarrow>
        mset m'' = mset m' \<Longrightarrow> same_value (JObj m) (JObj m')"

text \<open>The path of an entry of a map, as both walks build it.\<close>

definition keyPath :: "string \<Rightarrow> string \<Rightarrow> string" where
  "keyPath currentPath key = (if currentPath \<noteq> [] then currentPath @ ''.'' else currentPath) @ key"

text \<open>A key with neither a dot nor an opening bracket; and a key that a path can
  name: not empty, well-formed UTF-8, and with no dot and no bracket of either kind.\<close>

definition dot_bracket_free :: "string \<Rightarrow> bool" where
  "dot_bracket_free k = (CHR ''.'' \<notin> set k \<and> CHR ''['' \<notin> set k)"

definition path_key :: "string \<Rightarrow> bool" where
  "path_key k = (k \<noteq> [] \<and> plain k \<and> dotfree k \<and> valid_utf8 k)"

subsection \<open>Places in a tree\<close>

text \<open>
  A place below a node is a list of steps, into a map by key or into a slice by index.
  \<open>reach d steps w\<close>: the steps lead from \<open>d\<close> to \<open>w\<close>. \<open>extendPath\<close> is the path
  string the two walks build along the steps, \<open>seg_of\<close> the segment that stands for a
  step, and \<open>render\<close> the text the steps add to a path that is not empty.
\<close>

datatype step = Key string | Idx nat

definition index_seg :: "nat \<Rightarrow> string" where
  "index_seg i = ''['' @ itoa i @ '']''"

fun seg_of :: "step \<Rightarrow> string" where
  "seg_of (Key k) = k"
| "seg_of (Idx i) = index_seg i"

fun step_ok :: "step \<Rightarrow> bool" where
  "step_ok (Key k) = path_key k"
| "step_ok (Idx i) = True"

fun extendPath :: "string \<Rightarrow> step list \<Rightarrow> string" where
  "extendPath cur [] = cur"
| "extendPath cur (Key k # r) = extendPath ((if cur \<noteq> [] then cur @ ''.'' else cur) @ k) r"
| "extendPath cur (Idx i # r) = extendPath (cur @ index_seg i) r"

fun render :: "step list \<Rightarrow> string" where
  "render [] = []"
| "render (Key k # r) = CHR ''.'' # k @ render r"
| "render (Idx i # r) = index_seg i @ render r"

inductive reach :: "json \<Rightarrow> step list \<Rightarrow> json \<Rightarrow> bool" where
  here: "reach d [] d"
| key: "(k, v) \<in> set m \<Longrightarrow> reach v r w \<Longrightarrow> reach (JObj m) (Key k # r) w"
| idx: "i < length xs \<Longrightarrow> reach (xs ! i) r w \<Longrightarrow> reach (JArr xs) (Idx i # r) w"

subsection \<open>Concrete inputs\<close>

text \<open>
  A library for the concrete runs below. Their patterns have no metacharacter, and
  such a pattern matches the strings that contain it; none of the runs prints a
  number or marshals a value, so these two functions are left empty.
\<close>

fun contains :: "string \<Rightarrow> string \<Rightarrow> bool" where
  "contains [] pat = (pat = [])"
| "contains (c # cs) pat = (take (length pat) (c # cs) = pat \<or> contains cs pat)"

definition literal_lib :: stdlib where
  "literal_lib = \<lparr>MatchString = (\<lambda>pattern s. contains s pattern),
                  FormatFloat = (\<lambda>_. []), Marshal = (\<lambda>_. [])\<rparr>"

text \<open>The tree \<^verbatim>\<open>{"user":{"name":"J","items":[{"name":"x"}]}}\<close>, in the two orders
  in which \<^verbatim>\<open>range\<close> can enumerate the map under \<^verbatim>\<open>user\<close>.\<close>

definition user_tree :: json where
  "user_tree = JObj [(''user'', JObj [(''name'', JStr ''J''),
                                     (''items'', JArr [JObj [(''name'', JStr ''x'')]])])]"

definition user_tree' :: json where
  "user_tree' = JObj [(''user'', JObj [(''items'', JArr [JObj [(''name'', JStr ''x'')]]),
                                      (''name'', JStr ''J'')])]"

definition name_filter :: FindOptions where
  "name_filter = \<lparr>KeyPattern = ''name'', ValuePattern = [], ExactValue = [], ValueType = []\<rparr>"

text \<open>\<^verbatim>\<open>{"a":[{"b":"x"}]}\<close>, \<^verbatim>\<open>{"a":["x"]}\<close>, \<^verbatim>\<open>{"a.b":["x"],"a":{"b":["z"]}}\<close>
  and \<^verbatim>\<open>{"":null,"a]":null}\<close>.\<close>

definition nested_tree :: json where
  "nested_tree = JObj [(''a'', JArr [JObj [(''b'', JStr ''x'')]])]"

definition array_tree :: json where
  "array_tree = JObj [(''a'', JArr [JStr ''x''])]"

definition dotted_key_tree :: json where
  "dotted_key_tree = JObj [(''a.b'', JArr [JStr ''x'']), (''a'', JObj [(''b'', JArr [JStr ''z''])])]"

definition odd_keys_tree :: json where
  "odd_keys_tree = JObj [([], JNull), (''a]'', JNull)]"

section \<open>Lemmas\<close>

subsection \<open>Runes\<close>

text \<open>The width of a sequence depends on the bytes of the sequence only; a sequence of
  more than one byte has no ASCII byte; what the loop reads in a step is well formed.\<close>

lemma runeLen_Nil: "runeLen [] = 0"
  by (simp add: runeLen_def)

lemma runeLen_le: "runeLen s \<le> length s"
  by (cases s) (simp_all add: runeLen_def Let_def)

lemma runeLen_pos:
  assumes "runeLen (b # bs) \<noteq> 0"
  shows "seqLen b \<noteq> 0" and "seqLen b \<le> Suc (length bs)"
    and "accepted (take (seqLen b) (b # bs))" and "runeLen (b # bs) = seqLen b"
  using assms by (auto simp: runeLen_def Let_def split: if_splits)

lemma runeLen_prefix:
  assumes "runeLen s \<noteq> 0" and "take (runeLen s) t = take (runeLen s) s"
  shows "runeLen t = runeLen s"
proof -
  from assms(1) obtain b bs where s: "s = b # bs" by (cases s) (auto simp: runeLen_Nil)
  from assms(1) have n: "runeLen s = seqLen b" unfolding s by (rule runeLen_pos(4))
  from assms(1) have ok: "seqLen b \<noteq> 0" "seqLen b \<le> length s" "accepted (take (seqLen b) s)"
    unfolding s using runeLen_pos [of b bs] by simp_all
  from assms(2) have tk: "take (seqLen b) t = take (seqLen b) s" by (simp add: n)
  then have "length (take (seqLen b) t) = length (take (seqLen b) s)" by simp
  with ok(2) have len: "seqLen b \<le> length t" by simp
  from tk ok(1) obtain bt where t: "t = b # bt"
    unfolding s by (cases t; cases "seqLen b") auto
  have "runeLen t = seqLen b"
    using ok(1) len ok(3) tk by (simp add: runeLen_def t Let_def)
  then show ?thesis by (simp add: n)
qed

lemma runeLen_append: "runeLen s \<noteq> 0 \<Longrightarrow> runeLen (s @ t) = runeLen s"
  using runeLen_le [of s] by (intro runeLen_prefix) simp_all

lemma runeLen_take: "runeLen s \<noteq> 0 \<Longrightarrow> runeLen (take (runeLen s) s) = runeLen s"
  by (intro runeLen_prefix) simp_all

lemma runeLen_ascii_1: "(of_char b :: nat) < 128 \<Longrightarrow> runeLen (b # bs) = 1"
  by (simp add: runeLen_def seqLen_def)

lemma runeLen_ascii: "runeLen (b # bs) = Suc 0 \<Longrightarrow> (of_char b :: nat) < 128"
proof -
  assume a: "runeLen (b # bs) = Suc 0"
  then have "seqLen b = Suc 0" using runeLen_pos(4) [of b bs] by simp
  then show ?thesis by (simp add: seqLen_def split: if_splits)
qed

lemma accepted_high:
  assumes "accepted (b # u)" and "2 \<le> seqLen b" and "x \<in> set (b # u)"
  shows "(128 :: nat) \<le> of_char x"
proof -
  from assms(2) have b: "(128 :: nat) \<le> of_char b"
    by (simp add: seqLen_def split: if_splits)
  have lo: "128 \<le> acceptLo b" by (simp add: acceptLo_def)
  from assms(1) have "\<forall>y\<in>set u. (128 :: nat) \<le> of_char y"
    using lo by (cases "b # u" rule: accepted.cases) (auto simp: byte_in_def)
  with b assms(3) show ?thesis by auto
qed

lemma runeLen_high:
  assumes "2 \<le> runeLen s" and "x \<in> set (take (runeLen s) s)"
  shows "(128 :: nat) \<le> of_char x"
proof -
  from assms(1) have nz: "runeLen s \<noteq> 0" by simp
  then obtain b bs where s: "s = b # bs" by (cases s) (auto simp: runeLen_Nil)
  from nz have n: "runeLen s = seqLen b" unfolding s by (rule runeLen_pos(4))
  from nz have acc: "accepted (take (seqLen b) (b # bs))"
    unfolding s by (rule runeLen_pos(3))
  from assms(1) n obtain m where m: "seqLen b = Suc m" by (cases "seqLen b") auto
  from acc have "accepted (b # take m bs)" by (simp add: m)
  moreover from assms(2) have "x \<in> set (b # take m bs)" unfolding n unfolding s m by simp
  ultimately show ?thesis using assms(1) n accepted_high by metis
qed

lemma nextRune_ascii: "(of_char b :: nat) < 128 \<Longrightarrow> nextRune (b # bs) = ([b], bs)"
  by (simp add: nextRune_def runeLen_ascii_1)

lemma nextRune_valid:
  "runeLen s \<noteq> 0 \<Longrightarrow> nextRune (s @ t) = (take (runeLen s) s, drop (runeLen s) s @ t)"
  using runeLen_le [of s] by (simp add: nextRune_def runeLen_append Let_def)

lemma valid_utf8_append: "valid_utf8 a \<Longrightarrow> valid_utf8 (a @ b) = valid_utf8 b"
proof (induction a rule: valid_utf8.induct)
  case 1
  then show ?case by simp
next
  case (2 c cs)
  define k where "k = c # cs"
  from "2.prems" have n: "runeLen k \<noteq> 0" and v: "valid_utf8 (drop (runeLen k) k)"
    by (simp_all add: k_def valid_utf8.simps(2) split: if_splits)
  have d: "drop (runeLen k) (k @ b) = drop (runeLen k) k @ b"
    using runeLen_le [of k] by simp
  have "valid_utf8 (k @ b) = valid_utf8 (drop (runeLen (k @ b)) (k @ b))"
    using runeLen_append [OF n, of b] n by (simp add: k_def valid_utf8.simps(2))
  then have "valid_utf8 (k @ b) = valid_utf8 (drop (runeLen k) k @ b)"
    by (simp only: runeLen_append [OF n] d)
  with "2.IH" [OF n [unfolded k_def] v [unfolded k_def]] show ?case by (simp add: k_def)
qed

lemma valid_utf8_rune: "runeLen s \<noteq> 0 \<Longrightarrow> valid_utf8 (take (runeLen s) s)"
proof -
  assume n: "runeLen s \<noteq> 0"
  then have "s \<noteq> []" by (auto simp: runeLen_Nil)
  with n obtain c cs where s: "take (runeLen s) s = c # cs"
    by (cases "take (runeLen s) s") auto
  have "runeLen (c # cs) = runeLen s" using runeLen_take [OF n] s by simp
  moreover have "length (c # cs) = runeLen s"
    using runeLen_le [of s] s [symmetric] by simp
  ultimately show ?thesis
    using n unfolding s by (simp add: valid_utf8.simps(2))
qed

lemma valid_utf8_RuneError: "valid_utf8 RuneError"
proof -
  have "runeLen RuneError = 3"
    by (simp add: RuneError_def runeLen_def seqLen_def byte_in_def acceptLo_def acceptHi_def)
  then show ?thesis by (simp add: RuneError_def valid_utf8.simps(2))
qed

lemma valid_utf8_ascii_Cons: "(of_char b :: nat) < 128 \<Longrightarrow> valid_utf8 (b # bs) = valid_utf8 bs"
  by (simp add: runeLen_ascii_1 valid_utf8.simps(2))

lemma valid_utf8_ascii: "\<forall>b\<in>set s. (of_char b :: nat) < 128 \<Longrightarrow> valid_utf8 s"
  by (induction s) (simp_all add: valid_utf8_ascii_Cons)

lemma nextRune_cases:
  assumes "nextRune (b # bs) = (char, rest)"
  shows "valid_utf8 char \<and> char \<noteq> [] \<and>
         ((char = [b] \<and> (of_char b :: nat) < 128) \<or> (\<forall>x\<in>set char. (128 :: nat) \<le> of_char x))"
proof (cases "runeLen (b # bs) = 0")
  case True
  with assms have "char = RuneError" by (simp add: nextRune_def)
  then show ?thesis
    using valid_utf8_RuneError by (auto simp: RuneError_def)
next
  case False
  with assms have char: "char = take (runeLen (b # bs)) (b # bs)"
    by (simp add: nextRune_def Let_def)
  have v: "valid_utf8 char" unfolding char using False by (rule valid_utf8_rune)
  have ne: "char \<noteq> []" unfolding char using False by simp
  show ?thesis
  proof (cases "runeLen (b # bs) = Suc 0")
    case True
    then have "(of_char b :: nat) < 128" by (rule runeLen_ascii)
    moreover from True have "char = [b]" unfolding char by simp
    ultimately show ?thesis using v by simp
  next
    case one: False
    with False have "2 \<le> runeLen (b # bs)" by arith
    then have "\<forall>x\<in>set char. (128 :: nat) \<le> of_char x"
      unfolding char using runeLen_high by blast
    with v ne show ?thesis by simp
  qed
qed

lemma high_not_special:
  "\<forall>x\<in>set char. (128 :: nat) \<le> of_char x \<Longrightarrow>
   char \<noteq> ''.'' \<and> char \<noteq> ''['' \<and> char \<noteq> '']'' \<and> plain char \<and> dotfree char"
  by (auto simp: plain_def dotfree_def)

lemma parseLoop_ascii:
  "(of_char b :: nat) < 128 \<Longrightarrow>
   parseLoop (b # bs) parts current inBrackets =
     (if b = CHR ''.'' then
        (if \<not> inBrackets then
           (if current \<noteq> [] then parseLoop bs (parts @ [current]) [] inBrackets
            else parseLoop bs parts current inBrackets)
         else parseLoop bs parts (current @ [b]) inBrackets)
      else if b = CHR ''['' then
        (if current \<noteq> [] then parseLoop bs (parts @ [current]) [] True
         else parseLoop bs parts current True)
      else if b = CHR '']'' then
        (if inBrackets then parseLoop bs (parts @ [''['' @ current @ '']'']) [] False
         else parseLoop bs parts current inBrackets)
      else parseLoop bs parts (current @ [b]) inBrackets)"
  by (simp add: nextRune_ascii parseLoop.simps(2))

lemma parseLoop_other:
  "nextRune (b # bs) = (char, rest) \<Longrightarrow> char \<noteq> ''.'' \<Longrightarrow> char \<noteq> ''['' \<Longrightarrow> char \<noteq> '']'' \<Longrightarrow>
   parseLoop (b # bs) parts current inBrackets = parseLoop rest parts (current @ char) inBrackets"
  by (simp add: parseLoop.simps(2))

lemma parseLoop_in_brackets:
  "nextRune (b # bs) = (char, rest) \<Longrightarrow> char \<noteq> ''['' \<Longrightarrow> char \<noteq> '']'' \<Longrightarrow>
   parseLoop (b # bs) parts current True = parseLoop rest parts (current @ char) True"
  by (simp add: parseLoop.simps(2))

declare parseLoop_ascii [simp]
declare valid_utf8_ascii_Cons [simp]

subsection \<open>The segments of a tokenized path\<close>

text \<open>Every segment that \<open>parsePath\<close> emits is plain and not empty, or bracketed;
  on such a segment \<open>parsePart\<close> does not panic, and so neither does the navigator.\<close>
lemma bracketed_wrap: "plain c \<Longrightarrow> bracketed (CHR ''['' # c @ [CHR '']''])"
  by (simp add: bracketed_def)

lemma bracketed_unwrap:
  assumes "bracketed s"
  obtains c where "s = CHR ''['' # c @ [CHR '']'']" "plain c"
proof -
  from assms obtain x xs where s: "s = x # xs" and ne: "xs \<noteq> []"
    by (cases s; cases "tl s") (auto simp: bracketed_def)
  with assms have "x = CHR ''[''" "last xs = CHR '']''" "plain (butlast xs)"
    by (auto simp: bracketed_def)
  with s ne have "s = CHR ''['' # butlast xs @ [CHR '']'']"
    by (metis append_butlast_last_id)
  with \<open>plain (butlast xs)\<close> show thesis using that by blast
qed

lemma plain_snoc: "plain (s @ [c]) \<longleftrightarrow> plain s \<and> c \<noteq> CHR ''['' \<and> c \<noteq> CHR '']''"
  by (auto simp: plain_def)

lemma plain_append: "plain (a @ b) \<longleftrightarrow> plain a \<and> plain b"
  by (auto simp: plain_def)

lemma parseLoop_tok_seg:
  "\<forall>s\<in>set parts. tok_seg s \<Longrightarrow> plain current \<Longrightarrow> valid_utf8 current \<Longrightarrow>
   \<forall>s\<in>set (parseLoop cs parts current inb). tok_seg s"
proof (induction cs parts current inb rule: parseLoop.induct)
  case (1 parts current inBrackets)
  then show ?case by (auto simp: tok_seg_def)
next
  case (2 b bs parts current inBrackets)
  obtain char rest where nr: "nextRune (b # bs) = (char, rest)"
    by (cases "nextRune (b # bs)")
  note ih = "2.IH" [OF nr [symmetric]]
  from nextRune_cases [OF nr] have char: "valid_utf8 char"
    and shape: "(char = [b] \<and> (of_char b :: nat) < 128) \<or> (\<forall>x\<in>set char. (128 :: nat) \<le> of_char x)"
    by simp_all
  have e: "plain []" "valid_utf8 []" by (simp_all add: plain_def)
  have flushed: "current \<noteq> [] \<Longrightarrow> \<forall>s\<in>set (parts @ [current]). tok_seg s"
    using "2.prems" by (auto simp: tok_seg_def)
  have wrapped: "\<forall>s\<in>set (parts @ [''['' @ current @ '']'']). tok_seg s"
    using "2.prems" by (auto simp: tok_seg_def)
  have v: "valid_utf8 (current @ char)"
    using valid_utf8_append [OF "2.prems"(3), of char] char by simp
  have p: "char \<noteq> ''['' \<Longrightarrow> char \<noteq> '']'' \<Longrightarrow> plain (current @ char)"
    using shape "2.prems"(2) high_not_special [of char] by (auto simp: plain_append plain_def)
  show ?case
  proof (cases "char = ''.''")
    case True
    with ih(1-3) flushed e "2.prems" v p show ?thesis
      by (simp add: parseLoop.simps(2) nr)
  next
    case dot: False
    show ?thesis
    proof (cases "char = ''[''")
      case True
      with dot ih(4,5) flushed e "2.prems" show ?thesis
        by (simp add: parseLoop.simps(2) nr)
    next
      case lb: False
      show ?thesis
      proof (cases "char = '']''")
        case True
        with dot lb ih(6,7) wrapped e "2.prems" show ?thesis
          by (simp add: parseLoop.simps(2) nr)
      next
        case False
        with dot lb ih(8) "2.prems"(1) v p show ?thesis
          by (simp add: parseLoop.simps(2) nr)
      qed
    qed
  qed
qed

lemma parsePath_tok_seg: "s \<in> set (parsePath p) \<Longrightarrow> tok_seg s"
  using parseLoop_tok_seg [of "[]" "[]" p False] by (simp add: parsePath_def plain_def)

lemma tok_seg_ok: "tok_seg s \<Longrightarrow> seg_ok s"
  using bracketed_wrap by (auto simp: tok_seg_def seg_ok_def)

lemma parsePath_seg_ok: "s \<in> set (parsePath p) \<Longrightarrow> seg_ok s"
  by (rule tok_seg_ok) (rule parsePath_tok_seg)

lemma tok_seg_rejoinable:
  assumes "tok_seg s" and "bracketed s \<or> CHR ''.'' \<notin> set s"
  shows "rejoinable s"
proof (cases "\<exists>c. s = CHR ''['' # c @ '']'' \<and> plain c \<and> valid_utf8 c")
  case True
  then show ?thesis by (simp add: rejoinable_def)
next
  case False
  with assms(1) have k: "s \<noteq> []" "plain s" "valid_utf8 s" by (auto simp: tok_seg_def)
  from k(1,2) have "\<not> bracketed s"
    by (cases s) (auto simp: bracketed_def plain_def)
  with assms(2) have "dotfree s" by (simp add: dotfree_def)
  with k show ?thesis by (simp add: rejoinable_def)
qed

lemma Index_None: "c \<notin> set s \<Longrightarrow> Index s c = None"
  by (induction s) auto

lemma parsePart_plain: "plain s \<Longrightarrow> parsePart s = Ok (s, - 1, False)"
  by (cases s) (auto simp: parsePart_def plain_def HasPrefix_def Index_None)

lemma parsePart_bracketed:
  "parsePart (CHR ''['' # c @ [CHR '']'']) =
     (case Atoi c of None \<Rightarrow> Ok ([], - 1, False) | Some idx \<Rightarrow> Ok ([], idx, True))"
  by (simp add: parsePart_def HasPrefix_def HasSuffix_def slice_def)

lemma parsePart_seg_ok:
  assumes "seg_ok s"
  shows "\<exists>key idx isArray. parsePart s = Ok (key, idx, isArray) \<and> (isArray \<longrightarrow> key = [])"
proof (cases "bracketed s")
  case True
  then obtain c where "s = CHR ''['' # c @ [CHR '']'']"
    by (rule bracketed_unwrap)
  then show ?thesis
    by (cases "Atoi c") (auto simp: parsePart_bracketed)
next
  case False
  with assms have "plain s" by (simp add: seg_ok_def)
  then show ?thesis by (auto simp: parsePart_plain)
qed

lemma getLoop_no_panic: "\<forall>s\<in>set parts. seg_ok s \<Longrightarrow> getLoop t i parts \<noteq> Panic"
proof (induction parts arbitrary: t i)
  case Nil
  then show ?case by simp
next
  case (Cons part rest)
  from Cons.prems obtain key idx isArray where pp: "parsePart part = Ok (key, idx, isArray)"
    using parsePart_seg_ok [of part] by auto
  from Cons have ih: "\<And>t i. getLoop t i rest \<noteq> Panic" by simp
  show ?case
    by (cases t) (simp_all add: pp ih split: option.split)
qed

lemma GetValueByPath_no_panic: "GetValueByPath t p \<noteq> Panic"
  using getLoop_no_panic [of "parsePath p" t 0] parsePath_seg_ok [of _ p]
  by (simp add: GetValueByPath_def)

lemma getLoop_append:
  "getLoop t i (ps @ qs) =
     (case getLoop t i ps of
        Ok c \<Rightarrow> getLoop c (i + length ps) qs
      | Err e \<Rightarrow> Err e
      | Panic \<Rightarrow> Panic)"
proof (induction ps arbitrary: t i)
  case Nil
  then show ?case by simp
next
  case (Cons part ps)
  show ?case
    by (cases t) (simp_all add: Cons.IH split: result.split option.split prod.split)
qed

lemma parsePath_items5: "parsePath ''items[5]'' = [''items'', ''[5]'']"
  by (simp add: parsePath_def)

lemma Atoi_5: "Atoi ''5'' = Some 5"
  by (simp add: Atoi_def digit_of_def)

lemma parsePart_items: "parsePart ''items'' = Ok (''items'', - 1, False)"
  by (simp add: parsePart_plain plain_def)

lemma parsePart_5: "parsePart ''[5]'' = Ok ([], 5, True)"
  using parsePart_bracketed [of "''5''"] by (simp add: Atoi_5)

subsection \<open>Tokenizing a joined list of segments\<close>

lemma rune_of_key:
  assumes "runeLen k \<noteq> 0" and "plain k"
  shows "take (runeLen k) k \<noteq> ''['' \<and> take (runeLen k) k \<noteq> '']''"
    and "dotfree k \<Longrightarrow> take (runeLen k) k \<noteq> ''.''"
proof -
  have sub: "set (take (runeLen k) k) \<subseteq> set k" by (rule set_take_subset)
  from sub assms(2) show "take (runeLen k) k \<noteq> ''['' \<and> take (runeLen k) k \<noteq> '']''"
    by (auto simp: plain_def)
  from sub show "dotfree k \<Longrightarrow> take (runeLen k) k \<noteq> ''.''"
    by (auto simp: dotfree_def)
qed

lemma parseLoop_key_chars:
  "valid_utf8 k \<Longrightarrow> plain k \<Longrightarrow> dotfree k \<Longrightarrow>
   parseLoop (k @ rest) parts current inb = parseLoop rest parts (current @ k) inb"
proof (induction k arbitrary: current rule: valid_utf8.induct)
  case 1
  then show ?case by simp
next
  case (2 c cs)
  define k where "k = c # cs"
  define u where "u = take (runeLen k) k"
  define k' where "k' = drop (runeLen k) k"
  from "2.prems"(1) have n: "runeLen k \<noteq> 0" and v: "valid_utf8 k'"
    by (simp_all add: k_def k'_def valid_utf8.simps(2) split: if_splits)
  have k: "k = u @ k'" by (simp add: u_def k'_def)
  from "2.prems"(2,3) have pk: "plain k" "dotfree k" by (simp_all add: k_def)
  then have pk': "plain k'" "dotfree k'"
    unfolding k'_def by (auto simp: plain_def dotfree_def dest: in_set_dropD)
  have nr: "nextRune (c # (cs @ rest)) = (u, k' @ rest)"
    using nextRune_valid [OF n, of rest] by (simp add: u_def k'_def k_def)
  have "parseLoop (c # (cs @ rest)) parts current inb = parseLoop (k' @ rest) parts (current @ u) inb"
    using rune_of_key [OF n pk(1)] pk(2) by (intro parseLoop_other [OF nr]) (simp_all add: u_def)
  also have "\<dots> = parseLoop rest parts ((current @ u) @ k') inb"
    using "2.IH" [OF n [unfolded k_def] v [unfolded k'_def k_def] pk' [unfolded k'_def k_def]]
    by (simp add: k'_def k_def)
  finally show ?case using k [unfolded k_def, symmetric] by simp
qed

lemma parseLoop_bracket_chars:
  "valid_utf8 c \<Longrightarrow> plain c \<Longrightarrow>
   parseLoop (c @ rest) parts current True = parseLoop rest parts (current @ c) True"
proof (induction c arbitrary: current rule: valid_utf8.induct)
  case 1
  then show ?case by simp
next
  case (2 c cs)
  define k where "k = c # cs"
  define u where "u = take (runeLen k) k"
  define k' where "k' = drop (runeLen k) k"
  from "2.prems"(1) have n: "runeLen k \<noteq> 0" and v: "valid_utf8 k'"
    by (simp_all add: k_def k'_def valid_utf8.simps(2) split: if_splits)
  have k: "k = u @ k'" by (simp add: u_def k'_def)
  from "2.prems"(2) have pk: "plain k" by (simp add: k_def)
  then have pk': "plain k'"
    unfolding k'_def by (auto simp: plain_def dest: in_set_dropD)
  have nr: "nextRune (c # (cs @ rest)) = (u, k' @ rest)"
    using nextRune_valid [OF n, of rest] by (simp add: u_def k'_def k_def)
  have "parseLoop (c # (cs @ rest)) parts current True = parseLoop (k' @ rest) parts (current @ u) True"
    using rune_of_key(1) [OF n pk] by (intro parseLoop_in_brackets [OF nr]) (simp_all add: u_def)
  also have "\<dots> = parseLoop rest parts ((current @ u) @ k') True"
    using "2.IH" [OF n [unfolded k_def] v [unfolded k'_def k_def] pk' [unfolded k'_def k_def]]
    by (simp add: k'_def k_def)
  finally show ?case using k [unfolded k_def, symmetric] by simp
qed

lemma parseLoop_dot:
  "parseLoop (CHR ''.'' # rest) parts current False = parseLoop rest (flush parts current) [] False"
  by (simp add: flush_def parseLoop_ascii)

lemma parseLoop_open:
  "parseLoop (CHR ''['' # rest) parts current inb = parseLoop rest (flush parts current) [] True"
  by (simp add: flush_def parseLoop_ascii)

lemma parseLoop_bracketed:
  assumes "plain c" and "valid_utf8 c"
  shows "parseLoop (CHR ''['' # c @ CHR '']'' # rest) parts current False
           = parseLoop rest (flush parts current @ [CHR ''['' # c @ '']'']) [] False"
proof -
  have "parseLoop (CHR ''['' # c @ CHR '']'' # rest) parts current False
        = parseLoop (c @ CHR '']'' # rest) (flush parts current) [] True"
    by (rule parseLoop_open)
  also have "\<dots> = parseLoop (CHR '']'' # rest) (flush parts current) c True"
    using parseLoop_bracket_chars [OF assms(2,1), of "CHR '']'' # rest" "flush parts current" "[]"]
    by simp
  also have "\<dots> = parseLoop rest (flush parts current @ [CHR ''['' # c @ '']'']) [] False"
    by (simp add: parseLoop_ascii)
  finally show ?thesis .
qed

lemma parseLoop_parts:
  "parseLoop s (pre @ parts) current inb = pre @ parseLoop s parts current inb"
proof (induction s parts current inb arbitrary: pre rule: parseLoop.induct)
  case (1 parts current inBrackets)
  then show ?case by simp
next
  case (2 b bs parts current inBrackets)
  obtain char rest where nr: "nextRune (b # bs) = (char, rest)"
    by (cases "nextRune (b # bs)")
  note ih = "2.IH" [OF nr [symmetric]]
  show ?case
    using ih(1) [of pre] ih(2) [of pre] ih(3) [of pre] ih(4) [of pre] ih(5) [of pre] ih(6) [of pre]
      ih(7) [of pre] ih(8) [of pre]
    by (cases "current = []"; cases inBrackets) (simp_all add: parseLoop.simps(2) nr)
qed

lemma parseLoop_dotted:
  "\<forall>s\<in>set ss. rejoinable s \<Longrightarrow>
   parseLoop (concat (map (\<lambda>s. CHR ''.'' # s) ss)) parts current False
     = flush parts current @ ss"
proof (induction ss arbitrary: parts current)
  case Nil
  then show ?case by (simp add: flush_def)
next
  case (Cons s ss)
  let ?rest = "concat (map (\<lambda>s. CHR ''.'' # s) ss)"
  from Cons.prems have ih: "\<And>parts current. parseLoop ?rest parts current False = flush parts current @ ss"
    using Cons.IH by simp
  have fl: "\<And>ps. flush ps [] = ps" by (simp add: flush_def)
  have start: "parseLoop (concat (map (\<lambda>s. CHR ''.'' # s) (s # ss))) parts current False
      = parseLoop (s @ ?rest) (flush parts current) [] False"
    by (simp add: flush_def)
  from Cons.prems have "rejoinable s" by simp
  then consider c where "s = CHR ''['' # c @ '']''" "plain c" "valid_utf8 c"
    | "s \<noteq> []" "plain s" "dotfree s" "valid_utf8 s"
    by (auto simp: rejoinable_def)
  then show ?case
  proof cases
    case 1
    have "parseLoop (s @ ?rest) (flush parts current) [] False
            = parseLoop ?rest (flush parts current @ [s]) [] False"
      using parseLoop_bracketed [OF 1(2,3), of ?rest "flush parts current" "[]"]
      by (simp add: 1(1) fl)
    then show ?thesis unfolding start ih by (simp add: fl)
  next
    case 2
    show ?thesis
      unfolding start parseLoop_key_chars [OF 2(4,2,3)] ih using 2(1) by (simp add: flush_def)
  qed
qed

lemma Join_dotted: "ss \<noteq> [] \<Longrightarrow> CHR ''.'' # Join ss ''.'' = concat (map (\<lambda>s. CHR ''.'' # s) ss)"
  by (induction ss "''.''" rule: Join.induct) simp_all

lemma parsePath_Join:
  assumes "\<forall>s\<in>set ss. rejoinable s"
  shows "parsePath (Join ss ''.'') = ss"
proof (cases "ss = []")
  case True
  then show ?thesis by (simp add: parsePath_def)
next
  case False
  have "parsePath (Join ss ''.'') = parseLoop (CHR ''.'' # Join ss ''.'') [] [] False"
    by (simp add: parsePath_def)
  also have "\<dots> = ss"
    using parseLoop_dotted [OF assms, of "[]" "[]"] by (simp add: Join_dotted [OF False] flush_def)
  finally show ?thesis .
qed

subsection \<open>Writing back\<close>

text \<open>\<open>storeAt\<close> puts the new node where \<open>getLoop\<close> arrives, and putting back the
  node that is there changes nothing.\<close>
lemma findInElems_index:
  "findInElems xs key = Some next \<Longrightarrow>
   \<exists>j im. findElemIndex xs key = Some j \<and> j < length xs \<and> xs ! j = JObj im \<and> map_of im key = Some next"
proof (induction xs)
  case Nil
  then show ?case by simp
next
  case (Cons item items)
  show ?case
  proof (cases "\<exists>im v. item = JObj im \<and> map_of im key = Some v")
    case True
    with Cons.prems show ?thesis by auto
  next
    case False
    then have skip: "findInElems (item # items) key = findInElems items key"
      "findElemIndex (item # items) key = map_option Suc (findElemIndex items key)"
      by (cases item; cases "case item of JObj im \<Rightarrow> map_of im key | _ \<Rightarrow> None"; auto split: option.split)+
    with Cons show ?thesis by auto
  qed
qed

lemma findInElems_update:
  "findElemIndex xs key = Some j \<Longrightarrow> xs ! j = JObj im \<Longrightarrow>
   findInElems (xs[j := JObj (AList.update key x im)]) key = Some x"
proof (induction xs arbitrary: j)
  case Nil
  then show ?case by simp
next
  case (Cons item items)
  show ?case
  proof (cases "\<exists>m v. item = JObj m \<and> map_of m key = Some v")
    case True
    with Cons.prems show ?thesis by (auto simp: update_conv')
  next
    case False
    then have skip: "findElemIndex (item # items) key = map_option Suc (findElemIndex items key)"
      and skip': "\<And>rest. findInElems (item # rest) key = findInElems rest key"
      by (cases item; auto split: option.split)+
    from Cons.prems(1) obtain j' where j: "j = Suc j'" "findElemIndex items key = Some j'"
      unfolding skip by (cases "findElemIndex items key") auto
    with Cons.prems(2) Cons.IH [of j'] show ?thesis
      by (simp add: skip' del: findInElems.simps)
  qed
qed

lemma getLoop_storeAt:
  "getLoop t i ps = Ok parent \<Longrightarrow> getLoop (storeAt t ps new) i ps = Ok new"
proof (induction ps arbitrary: t i)
  case Nil
  then show ?case by simp
next
  case (Cons part rest)
  show ?case
  proof (cases t)
    case (JObj m)
    with Cons.prems Cons.IH show ?thesis
      by (auto simp: update_conv' split: result.splits prod.splits if_splits option.splits)
  next
    case (JArr xs)
    from Cons.prems JArr obtain key idx isArray where pp: "parsePart part = Ok (key, idx, isArray)"
      by (auto split: result.splits)
    show ?thesis
    proof (cases isArray)
      case True
      with Cons.prems Cons.IH JArr pp show ?thesis
        by (auto split: if_splits)
    next
      case False
      with Cons.prems JArr pp obtain nxt where f: "findInElems xs key = Some nxt"
        and g: "getLoop nxt (i + 1) rest = Ok parent"
        by (auto split: option.splits)
      from findInElems_index [OF f] obtain j im where j: "findElemIndex xs key = Some j"
        "j < length xs" "xs ! j = JObj im" "map_of im key = Some nxt"
        by blast
      have "findInElems (xs[j := JObj (AList.update key (storeAt nxt rest new) im)]) key
              = Some (storeAt nxt rest new)"
        using j(1,3) by (rule findInElems_update)
      with Cons.IH [OF g] JArr pp False j show ?thesis by simp
    qed
  qed (use Cons.prems in auto)
qed

lemma storeAt_same: "getLoop t i ps = Ok parent \<Longrightarrow> storeAt t ps parent = t"
proof (induction ps arbitrary: t i)
  case Nil
  then show ?case by simp
next
  case (Cons part rest)
  show ?case
  proof (cases t)
    case (JObj m)
    with Cons.prems Cons.IH show ?thesis
      by (auto simp: update_triv split: result.splits prod.splits if_splits option.splits)
  next
    case (JArr xs)
    from Cons.prems JArr obtain key idx isArray where pp: "parsePart part = Ok (key, idx, isArray)"
      by (auto split: result.splits)
    show ?thesis
    proof (cases isArray)
      case True
      with Cons.prems Cons.IH JArr pp show ?thesis
        by (auto split: if_splits)
    next
      case False
      with Cons.prems JArr pp obtain nxt where f: "findInElems xs key = Some nxt"
        and g: "getLoop nxt (i + 1) rest = Ok parent"
        by (auto split: option.splits)
      from findInElems_index [OF f] obtain j im where j: "findElemIndex xs key = Some j"
        "j < length xs" "xs ! j = JObj im" "map_of im key = Some nxt"
        by blast
      moreover from j(3) have "xs[j := JObj im] = xs" by (metis list_update_id)
      ultimately show ?thesis using Cons.IH [OF g] JArr pp False by (simp add: update_triv)
    qed
  qed (use Cons.prems in auto)
qed

subsection \<open>The mutator, unfolded\<close>

lemma parsePath_Nil: "parsePath [] = []"
  by (simp add: parsePath_def)

lemma GetValueByPath_getLoop: "GetValueByPath t p = getLoop t 0 (parsePath p)"
  by (simp add: GetValueByPath_def parsePath_Nil)

lemma SetValueByPath_unfold:
  assumes "parsePath p = ps @ [l]"
  shows "SetValueByPath t p v =
     (case getLoop t 0 (parsePath (Join ps ''.'')) of
        Err e \<Rightarrow> (t, Err (ParentFault (Join ps ''.'') e))
      | Panic \<Rightarrow> (t, Panic)
      | Ok parent \<Rightarrow>
          (case setValueAtPath parent l v of
             (parent', r) \<Rightarrow> (storeAt t (parsePath (Join ps ''.'')) parent', r)))"
proof -
  from assms have p: "p \<noteq> []" using parsePath_Nil by auto
  show ?thesis
  proof (cases "ps = []")
    case True
    with assms p show ?thesis
      by (simp add: SetValueByPath_def parsePath_Nil split: prod.split)
  next
    case False
    then have "length (ps @ [l]) \<noteq> 1" by (cases ps) auto
    with assms p show ?thesis
      by (simp add: SetValueByPath_def Let_def GetValueByPath_getLoop nth_append)
  qed
qed

lemma setValueAtPath_after_get:
  assumes "getLoop parent i [l] = Ok old"
    and "\<forall>xs. parent = JArr xs \<longrightarrow> (\<exists>k idx. parsePart l = Ok (k, idx, True))"
  shows "\<exists>parent'. setValueAtPath parent l v = (parent', Ok ()) \<and> getLoop parent' i [l] = Ok v"
proof (cases parent)
  case (JObj m)
  with assms(1) show ?thesis
    by (auto simp: setValueAtPath_def update_conv' split: result.splits prod.splits if_splits option.splits)
next
  case (JArr xs)
  with assms(2) obtain k idx where "parsePart l = Ok (k, idx, True)" by auto
  with assms(1) JArr show ?thesis
    by (auto simp: setValueAtPath_def split: if_splits)
qed (use assms(1) in auto)

lemma setValueAtPath_fail_same: "setValueAtPath d l v = (d', r) \<Longrightarrow> r \<noteq> Ok () \<Longrightarrow> d' = d"
  by (auto simp: setValueAtPath_def split: result.splits prod.splits json.splits if_splits)

lemma setValueAtPath_ok_shape:
  "setValueAtPath d l v = (d', Ok ()) \<Longrightarrow>
   (\<exists>m key idx. d = JObj m \<and> parsePart l = Ok (key, idx, False)) \<or>
   (\<exists>xs key idx. d = JArr xs \<and> parsePart l = Ok (key, idx, True) \<and> 0 \<le> idx \<and> idx < int (length xs))"
  by (auto simp: setValueAtPath_def split: result.splits prod.splits json.splits if_splits)

subsection \<open>The finder without a filter\<close>

lemma matchesOptions_no_filter: "matchesOptions lib val key (Some no_filter)"
  by (simp add: matchesOptions_def no_filter_def)

lemma findPaths_no_filter:
  "options = Some no_filter \<Longrightarrow>
     findPathsRecursive lib data currentPath options paths
       = (getAllPathsRecursive data currentPath paths, None)"
  "options = Some no_filter \<Longrightarrow>
     findPathsMap lib m currentPath options paths = (getAllPathsMap m currentPath paths, None)"
  "options = Some no_filter \<Longrightarrow>
     findPathsSlice lib xs i currentPath options paths
       = (getAllPathsSlice xs i currentPath paths, None)"
proof (induction lib data currentPath options paths
         and lib m currentPath options paths
         and lib xs i currentPath options paths
       rule: findPathsRecursive_findPathsMap_findPathsSlice.induct)
  case (1 lib data currentPath options paths)
  then show ?case
    by (cases data) simp_all
next
  case (2 lib currentPath options paths)
  then show ?case by simp
next
  case (3 lib key val rest currentPath options paths)
  then show ?case
    by (simp add: matchesOptions_no_filter Let_def
          del: findPathsRecursive.simps getAllPathsRecursive.simps)
next
  case (4 lib i currentPath options paths)
  then show ?case by simp
next
  case (5 lib val rest i currentPath options paths)
  then show ?case
    by (simp add: matchesOptions_no_filter Let_def
          del: findPathsRecursive.simps getAllPathsRecursive.simps)
qed

subsection \<open>The full walk and the order of a map\<close>

text \<open>Each walk adds its paths behind those it was given, so the paths of a map are
  the paths of its entries, one entry after the other; as a multiset they do not depend
  on the order of the entries.\<close>

lemma getAllPathsMap_step:
  assumes r: "\<And>cur acc. getAllPathsRecursive v cur acc = acc @ getAllPathsRecursive v cur []"
    and ih: "\<And>acc. getAllPathsMap m cur acc = acc @ getAllPathsMap m cur []"
  shows "getAllPathsMap ((k, v) # m) cur acc
           = acc @ keyPath cur k # getAllPathsRecursive v (keyPath cur k) [] @ getAllPathsMap m cur []"
proof -
  let ?np = "keyPath cur k"
  have "getAllPathsMap ((k, v) # m) cur acc
          = getAllPathsMap m cur (getAllPathsRecursive v ?np (acc @ [?np]))"
    by (simp add: Let_def keyPath_def del: getAllPathsRecursive.simps)
  also have "\<dots> = getAllPathsRecursive v ?np (acc @ [?np]) @ getAllPathsMap m cur []"
    by (rule ih)
  also have "getAllPathsRecursive v ?np (acc @ [?np]) = (acc @ [?np]) @ getAllPathsRecursive v ?np []"
    by (rule r)
  finally show ?thesis by simp
qed

lemma getAllPathsMap_acc:
  assumes "\<And>k v cur acc. (k, v) \<in> set m \<Longrightarrow>
             getAllPathsRecursive v cur acc = acc @ getAllPathsRecursive v cur []"
  shows "getAllPathsMap m cur acc = acc @ getAllPathsMap m cur []"
  using assms
proof (induction m arbitrary: acc)
  case Nil
  then show ?case by simp
next
  case (Cons kv m)
  obtain k v where kv: "kv = (k, v)" by (cases kv)
  have r: "\<And>cur acc. getAllPathsRecursive v cur acc = acc @ getAllPathsRecursive v cur []"
    by (rule Cons.prems [of k v]) (simp add: kv)
  have ih: "\<And>acc. getAllPathsMap m cur acc = acc @ getAllPathsMap m cur []"
  proof (rule Cons.IH)
    fix k v cur acc assume "(k, v) \<in> set m"
    then have "(k, v) \<in> set (kv # m)" by simp
    then show "getAllPathsRecursive v cur acc = acc @ getAllPathsRecursive v cur []"
      by (rule Cons.prems)
  qed
  show ?case
    unfolding kv getAllPathsMap_step [OF r ih, of k acc] getAllPathsMap_step [OF r ih, of k "[]"]
    by simp
qed

lemma getAllPathsSlice_step:
  assumes r: "\<And>cur acc. getAllPathsRecursive v cur acc = acc @ getAllPathsRecursive v cur []"
    and ih: "\<And>acc i. getAllPathsSlice xs i cur acc = acc @ getAllPathsSlice xs i cur []"
  shows "getAllPathsSlice (v # xs) i cur acc
           = acc @ (cur @ index_seg i) # getAllPathsRecursive v (cur @ index_seg i) []
               @ getAllPathsSlice xs (i + 1) cur []"
proof -
  let ?np = "cur @ index_seg i"
  have "getAllPathsSlice (v # xs) i cur acc
          = getAllPathsSlice xs (i + 1) cur (getAllPathsRecursive v ?np (acc @ [?np]))"
    by (simp add: Let_def index_seg_def del: getAllPathsRecursive.simps)
  also have "\<dots> = getAllPathsRecursive v ?np (acc @ [?np]) @ getAllPathsSlice xs (i + 1) cur []"
    by (rule ih)
  also have "getAllPathsRecursive v ?np (acc @ [?np]) = (acc @ [?np]) @ getAllPathsRecursive v ?np []"
    by (rule r)
  finally show ?thesis by simp
qed

lemma getAllPathsSlice_acc:
  assumes "\<And>v cur acc. v \<in> set xs \<Longrightarrow>
             getAllPathsRecursive v cur acc = acc @ getAllPathsRecursive v cur []"
  shows "getAllPathsSlice xs i cur acc = acc @ getAllPathsSlice xs i cur []"
  using assms
proof (induction xs arbitrary: acc i)
  case Nil
  then show ?case by simp
next
  case (Cons v xs)
  have r: "\<And>cur acc. getAllPathsRecursive v cur acc = acc @ getAllPathsRecursive v cur []"
    by (rule Cons.prems [of v]) simp
  have ih: "\<And>acc i. getAllPathsSlice xs i cur acc = acc @ getAllPathsSlice xs i cur []"
  proof (rule Cons.IH)
    fix w cur acc assume "w \<in> set xs"
    then have "w \<in> set (v # xs)" by simp
    then show "getAllPathsRecursive w cur acc = acc @ getAllPathsRecursive w cur []"
      by (rule Cons.prems)
  qed
  show ?case
    unfolding getAllPathsSlice_step [OF r ih, of i acc] getAllPathsSlice_step [OF r ih, of i "[]"]
    by simp
qed

lemma getAllPathsRecursive_acc:
  "getAllPathsRecursive d cur acc = acc @ getAllPathsRecursive d cur []"
proof (induction d arbitrary: cur acc)
  case (JObj m)
  have "getAllPathsMap m cur acc = acc @ getAllPathsMap m cur []"
  proof (rule getAllPathsMap_acc)
    fix k v cur acc assume "(k, v) \<in> set m"
    then have "(k, v) \<in> set m" "v \<in> Basic_BNFs.snds (k, v)" by simp_all
    then show "getAllPathsRecursive v cur acc = acc @ getAllPathsRecursive v cur []"
      by (rule JObj)
  qed
  then show ?case by simp
next
  case (JArr xs)
  have "getAllPathsSlice xs 0 cur acc = acc @ getAllPathsSlice xs 0 cur []"
    by (rule getAllPathsSlice_acc) (rule JArr)
  then show ?case by simp
qed simp_all

lemma getAllPathsMap_Cons:
  "getAllPathsMap ((k, v) # m) cur []
     = keyPath cur k # getAllPathsRecursive v (keyPath cur k) [] @ getAllPathsMap m cur []"
  using getAllPathsMap_step
    [OF getAllPathsRecursive_acc getAllPathsMap_acc [OF getAllPathsRecursive_acc],
      where v = v and m = m and cur = cur and k = k and acc = "[]"]
  by simp

lemma getAllPathsSlice_Cons:
  "getAllPathsSlice (v # xs) i cur []
     = (cur @ index_seg i) # getAllPathsRecursive v (cur @ index_seg i) []
         @ getAllPathsSlice xs (i + 1) cur []"
  using getAllPathsSlice_step
    [OF getAllPathsRecursive_acc getAllPathsSlice_acc [OF getAllPathsRecursive_acc],
      where v = v and xs = xs and cur = cur and i = i and acc = "[]"]
  by simp

lemma mset_getAllPathsMap:
  "mset (getAllPathsMap m cur [])
     = (\<Sum>kv\<in>#mset m. {#keyPath cur (fst kv)#}
           + mset (getAllPathsRecursive (snd kv) (keyPath cur (fst kv)) []))"
proof (induction m)
  case Nil
  then show ?case by simp
next
  case (Cons kv m)
  obtain k v where kv: "kv = (k, v)" by (cases kv)
  show ?case
    unfolding kv getAllPathsMap_Cons using Cons by (simp del: getAllPathsRecursive.simps)
qed

lemma same_value_paths:
  "same_value t t' \<Longrightarrow>
   mset (getAllPathsRecursive t cur []) = mset (getAllPathsRecursive t' cur [])"
proof (induction arbitrary: cur rule: same_value.induct)
  case (same d)
  then show ?case by simp
next
  case (arr xs ys)
  have "mset (getAllPathsSlice xs i cur []) = mset (getAllPathsSlice ys i cur [])" for i
    using arr
  proof (induction xs ys arbitrary: i rule: list_all2_induct)
    case Nil
    then show ?case by simp
  next
    case (Cons x xs y ys)
    then show ?case
      by (simp add: getAllPathsSlice_Cons del: getAllPathsRecursive.simps getAllPathsSlice.simps)
  qed
  then show ?case by simp
next
  case (obj m m'' m')
  let ?f = "\<lambda>kv. {#keyPath cur (fst kv)#}
           + mset (getAllPathsRecursive (snd kv) (keyPath cur (fst kv)) [])"
  from obj(1) have "map ?f m = map ?f m''"
  proof (induction m m'' rule: list_all2_induct)
    case Nil
    then show ?case by simp
  next
    case (Cons a m b m'')
    then show ?case by (simp del: getAllPathsRecursive.simps)
  qed
  then have "image_mset ?f (mset m) = image_mset ?f (mset m'')"
    by (metis mset_map)
  with obj(2) show ?case
    by (simp add: mset_getAllPathsMap getAllPathsRecursive.simps [of "JObj _"]
          del: getAllPathsRecursive.simps)
qed

lemma same_user_trees: "same_value user_tree user_tree'"
proof -
  have inner: "same_value
      (JObj [(''name'', JStr ''J''), (''items'', JArr [JObj [(''name'', JStr ''x'')]])])
      (JObj [(''items'', JArr [JObj [(''name'', JStr ''x'')]]), (''name'', JStr ''J'')])"
    by (rule same_value.obj
          [where m'' = "[(''name'', JStr ''J''), (''items'', JArr [JObj [(''name'', JStr ''x'')]])]"])
       (simp_all add: same_value.same)
  show ?thesis
    unfolding user_tree_def user_tree'_def
    by (rule same_value.obj
          [where m'' = "[(''user'', JObj [(''items'', JArr [JObj [(''name'', JStr ''x'')]]),
                                          (''name'', JStr ''J'')])]"])
       (simp_all add: inner)
qed

subsection \<open>Concrete runs\<close>

lemma itoa_0: "itoa 0 = ''0''"
  by code_simp

lemma matches_name_filter:
  "matchesOptions lib val key (Some name_filter) = (key = [] \<or> MatchString lib ''name'' key)"
  by (simp add: matchesOptions_def name_filter_def)

lemma literal_name:
  "MatchString literal_lib ''name'' ''name''"
  "\<not> MatchString literal_lib ''name'' ''user''"
  "\<not> MatchString literal_lib ''name'' ''items''"
  by (simp_all add: literal_lib_def)

subsection \<open>Decimal indices\<close>

lemma digit_of_digit_char: "d < 10 \<Longrightarrow> digit_of (digit_char d) = Some d"
  by (simp add: digit_of_def digit_char_def)

lemma digits_val_snoc:
  "digits_val a (ds @ [c]) =
     (case digits_val a ds of
        None \<Rightarrow> None
      | Some m \<Rightarrow> (case digit_of c of None \<Rightarrow> None | Some d \<Rightarrow> Some (10 * m + d)))"
  by (induction ds arbitrary: a) (auto split: option.splits)

lemma digits_val_itoa: "digits_val 0 (itoa n) = Some n"
proof (induction n rule: itoa.induct)
  case (1 n)
  show ?case
  proof (cases "n < 10")
    case True
    then show ?thesis
      by (subst itoa.simps) (simp add: digit_of_digit_char)
  next
    case False
    with 1 have "digits_val 0 (itoa (n div 10)) = Some (n div 10)" by simp
    with False show ?thesis
      by (subst itoa.simps) (simp add: digits_val_snoc digit_of_digit_char)
  qed
qed

lemma itoa_digits: "c \<in> set (itoa n) \<Longrightarrow> digit_of c \<noteq> None"
proof (induction n rule: itoa.induct)
  case (1 n)
  show ?case
  proof (cases "n < 10")
    case True
    with "1.prems" show ?thesis
      by (subst (asm) itoa.simps) (simp add: digit_of_digit_char)
  next
    case False
    with 1 show ?thesis
      by (subst (asm) (2) itoa.simps) (auto simp: digit_of_digit_char)
  qed
qed

lemma itoa_nonempty: "itoa n \<noteq> []"
  by (subst itoa.simps) simp

lemma digit_not_special:
  "digit_of c \<noteq> None \<Longrightarrow>
   c \<noteq> CHR ''['' \<and> c \<noteq> CHR '']'' \<and> c \<noteq> CHR ''.'' \<and> c \<noteq> CHR ''-'' \<and> c \<noteq> CHR ''+''"
  by (auto simp: digit_of_def Let_def)

lemma plain_itoa: "plain (itoa n)"
  using itoa_digits [of _ n] digit_not_special by (auto simp: plain_def)

lemma digit_ascii: "digit_of c \<noteq> None \<Longrightarrow> (of_char c :: nat) < 128"
  by (auto simp: digit_of_def Let_def split: if_splits)

lemma valid_utf8_itoa: "valid_utf8 (itoa n)"
  using itoa_digits [of _ n] digit_ascii by (intro valid_utf8_ascii) blast

lemma Atoi_itoa:
  assumes "int n < 2 ^ 63"
  shows "Atoi (itoa n) = Some (int n)"
proof -
  obtain c cs where s: "itoa n = c # cs"
    using itoa_nonempty [of n] by (cases "itoa n") auto
  then have "digit_of c \<noteq> None" using itoa_digits [of c n] by simp
  then have "c \<noteq> CHR ''-''" "c \<noteq> CHR ''+''" using digit_not_special by blast+
  moreover have "digits_val 0 (c # cs) = Some n"
    using digits_val_itoa [of n] s by simp
  moreover have "\<not> int n < - (2 ^ 63)"
  proof -
    have "- (2 ^ 63) \<le> (0 :: int)" by simp
    also have "0 \<le> int n" by simp
    finally show ?thesis by simp
  qed
  ultimately show ?thesis
    using assms by (simp add: Atoi_def s Let_def del: digits_val.simps)
qed

lemma bracketed_index_seg: "bracketed (index_seg i)"
  using bracketed_wrap [OF plain_itoa, of i] by (simp add: index_seg_def)

lemma parsePart_index_seg: "int i < 2 ^ 63 \<Longrightarrow> parsePart (index_seg i) = Ok ([], int i, True)"
  using parsePart_bracketed [of "itoa i"] by (simp add: index_seg_def Atoi_itoa)

subsection \<open>The paths of the full walk\<close>

lemma parseLoop_render:
  "list_all step_ok steps \<Longrightarrow>
   parseLoop (render steps) parts current False = flush parts current @ map seg_of steps"
proof (induction steps arbitrary: parts current)
  case Nil
  then show ?case by (simp add: flush_def)
next
  case (Cons st steps)
  from Cons have ih: "\<And>parts current.
      parseLoop (render steps) parts current False = flush parts current @ map seg_of steps"
    by simp
  show ?case
  proof (cases st)
    case (Key k)
    with Cons.prems have k: "k \<noteq> []" "plain k" "dotfree k" "valid_utf8 k"
      by (simp_all add: path_key_def)
    have "parseLoop (render (st # steps)) parts current False
            = parseLoop (k @ render steps) (flush parts current) [] False"
      by (simp add: Key flush_def)
    also have "\<dots> = flush (flush parts current) k @ map seg_of steps"
      unfolding parseLoop_key_chars [OF k(4,2,3)] ih by simp
    finally show ?thesis using k(1) by (simp add: Key flush_def)
  next
    case (Idx i)
    show ?thesis
      using parseLoop_bracketed [OF plain_itoa valid_utf8_itoa, of i "render steps" parts current]
      by (simp add: Idx index_seg_def ih flush_def)
  qed
qed

lemma extend_render: "cur \<noteq> [] \<Longrightarrow> extendPath cur steps = cur @ render steps"
  by (induction cur steps rule: extendPath.induct) (simp_all add: index_seg_def)

lemma index_seg_nonempty: "index_seg i \<noteq> []"
  by (simp add: index_seg_def)

lemma extend_root:
  assumes "steps \<noteq> []" "list_all step_ok steps"
  shows "extendPath [] steps \<noteq> [] \<and> parsePath (extendPath [] steps) = map seg_of steps"
proof (cases steps)
  case Nil
  with assms show ?thesis by simp
next
  case (Cons st rest)
  with assms have rest: "list_all step_ok rest" by simp
  show ?thesis
  proof (cases st)
    case (Key k)
    with assms Cons have k: "k \<noteq> []" "plain k" "dotfree k" "valid_utf8 k"
      by (simp_all add: path_key_def)
    have e: "extendPath [] steps = k @ render rest"
      using k(1) by (simp add: Cons Key extend_render)
    have "parsePath (k @ render rest) = parseLoop (render rest) [] k False"
      unfolding parsePath_def parseLoop_key_chars [OF k(4,2,3)] by simp
    with k(1) show ?thesis
      unfolding e by (simp add: parseLoop_render [OF rest] flush_def Cons Key)
  next
    case (Idx i)
    have e: "extendPath [] steps = index_seg i @ render rest"
      by (simp add: Cons Idx extend_render index_seg_nonempty)
    have "parsePath (index_seg i @ render rest) = parseLoop (render rest) [index_seg i] [] False"
      using parseLoop_bracketed [OF plain_itoa valid_utf8_itoa, of i "render rest" "[]" "[]"]
      by (simp add: parsePath_def index_seg_def flush_def)
    then show ?thesis
      unfolding e
      by (simp add: parseLoop_render [OF rest] flush_def Cons Idx index_seg_nonempty)
  qed
qed

lemma wf_json_entry: "wf_json (JObj m) \<Longrightarrow> (k, v) \<in> set m \<Longrightarrow> map_of m k = Some v \<and> wf_json v"
  by (auto simp: list_all_iff)

lemma wf_json_elem: "wf_json (JArr xs) \<Longrightarrow> i < length xs \<Longrightarrow> int i < 2 ^ 63 \<and> wf_json (xs ! i)"
  by (auto simp: list_all_length)

lemma getLoop_reach:
  "reach d steps w \<Longrightarrow> wf_json d \<Longrightarrow> list_all step_ok steps \<Longrightarrow>
   getLoop d i (map seg_of steps) = Ok w"
proof (induction arbitrary: i rule: reach.induct)
  case (here d)
  then show ?case by simp
next
  case (key k v m r w)
  from key.prems have "plain k" by (simp add: path_key_def)
  then have pp: "parsePart k = Ok (k, - 1, False)" by (rule parsePart_plain)
  from wf_json_entry [OF key.prems(1) key.hyps(1)] key.IH key.prems(2) show ?case
    by (simp add: pp)
next
  case (idx j xs r w)
  from wf_json_elem [OF idx.prems(1) idx.hyps(1)] idx.IH idx.prems(2) idx.hyps(1) show ?case
    by (simp add: parsePart_index_seg)
qed

lemma reach_steps_ok: "reach d steps w \<Longrightarrow> all_keys path_key d \<Longrightarrow> list_all step_ok steps"
proof (induction rule: reach.induct)
  case (here d)
  then show ?case by simp
next
  case (key k v m r w)
  then show ?case by (auto simp: list_all_iff)
next
  case (idx j xs r w)
  from idx.prems idx.hyps(1) have "all_keys path_key (xs ! j)" by (simp add: list_all_length)
  with idx.IH show ?case by simp
qed

lemma getAllPaths_reach:
  "p \<in> set (getAllPathsRecursive d cur acc) \<Longrightarrow>
     p \<in> set acc \<or> (\<exists>steps w. steps \<noteq> [] \<and> reach d steps w \<and> p = extendPath cur steps)"
  "p \<in> set (getAllPathsMap m cur acc) \<Longrightarrow>
     p \<in> set acc \<or> (\<exists>k v r w. (k, v) \<in> set m \<and> reach v r w \<and> p = extendPath cur (Key k # r))"
  "p \<in> set (getAllPathsSlice xs i cur acc) \<Longrightarrow>
     p \<in> set acc \<or> (\<exists>j r w. j < length xs \<and> reach (xs ! j) r w \<and> p = extendPath cur (Idx (i + j) # r))"
proof (induction d cur acc and m cur acc and xs i cur acc
       rule: getAllPathsRecursive_getAllPathsMap_getAllPathsSlice.induct)
  case (1 data currentPath paths)
  show ?case
  proof (cases data)
    case (JObj m)
    with 1 consider "p \<in> set paths"
      | k v r w where "(k, v) \<in> set m" "reach v r w" "p = extendPath currentPath (Key k # r)"
      by auto
    then show ?thesis
    proof cases
      case 1
      then show ?thesis by simp
    next
      case 2
      then have "reach data (Key k # r) w" by (simp add: JObj reach.key)
      with 2 show ?thesis by blast
    qed
  next
    case (JArr xs)
    with 1 consider "p \<in> set paths"
      | j r w where "j < length xs" "reach (xs ! j) r w" "p = extendPath currentPath (Idx j # r)"
      by auto
    then show ?thesis
    proof cases
      case 1
      then show ?thesis by simp
    next
      case 2
      then have "reach data (Idx j # r) w" by (simp add: JArr reach.idx)
      with 2 show ?thesis by blast
    qed
  qed (use 1 in auto)
next
  case (2 currentPath paths)
  then show ?case by simp
next
  case (3 key val rest currentPath paths)
  define newPath where "newPath = (if currentPath \<noteq> [] then currentPath @ ''.'' else currentPath) @ key"
  define paths' where "paths' = getAllPathsRecursive val newPath (paths @ [newPath])"
  from "3.prems" have "p \<in> set (getAllPathsMap rest currentPath paths')"
    by (simp add: newPath_def paths'_def Let_def del: getAllPathsRecursive.simps)
  with "3.IH"(2) [OF newPath_def] consider "p \<in> set paths'"
    | k v r w where "(k, v) \<in> set rest" "reach v r w" "p = extendPath currentPath (Key k # r)"
    unfolding paths'_def by blast
  then show ?case
  proof cases
    case 1
    with "3.IH"(1) [OF newPath_def] consider "p \<in> set paths" | "p = newPath"
      | steps w where "reach val steps w" "p = extendPath newPath steps"
      unfolding paths'_def by auto
    then show ?thesis
    proof cases
      case 1
      then show ?thesis by simp
    next
      case 2
      have "reach val [] val" by (rule reach.here)
      moreover have "p = extendPath currentPath (Key key # [])" by (simp add: 2 newPath_def)
      ultimately show ?thesis by (metis list.set_intros(1))
    next
      case 3
      then have "p = extendPath currentPath (Key key # steps)" by (simp add: newPath_def)
      with 3 show ?thesis by (metis list.set_intros(1))
    qed
  next
    case 2
    then show ?thesis by (metis list.set_intros(2))
  qed
next
  case (4 i currentPath paths)
  then show ?case by simp
next
  case (5 val rest i currentPath paths)
  define newPath where "newPath = currentPath @ ''['' @ itoa i @ '']''"
  define paths' where "paths' = getAllPathsRecursive val newPath (paths @ [newPath])"
  from "5.prems" have "p \<in> set (getAllPathsSlice rest (i + 1) currentPath paths')"
    by (simp add: newPath_def paths'_def Let_def del: getAllPathsRecursive.simps)
  with "5.IH"(2) [OF newPath_def] consider "p \<in> set paths'"
    | j r w where "j < length rest" "reach (rest ! j) r w" "p = extendPath currentPath (Idx (i + 1 + j) # r)"
    unfolding paths'_def by blast
  then show ?case
  proof cases
    case 1
    with "5.IH"(1) [OF newPath_def] consider "p \<in> set paths" | "p = newPath"
      | steps w where "reach val steps w" "p = extendPath newPath steps"
      unfolding paths'_def by auto
    then show ?thesis
    proof cases
      case 1
      then show ?thesis by simp
    next
      case 2
      have "reach ((val # rest) ! 0) [] val" by (simp add: reach.here)
      moreover have "p = extendPath currentPath (Idx (i + 0) # [])"
        by (simp add: 2 newPath_def index_seg_def)
      ultimately show ?thesis by (metis length_greater_0_conv list.distinct(1))
    next
      case 3
      then have "p = extendPath currentPath (Idx (i + 0) # steps)"
        by (simp add: newPath_def index_seg_def)
      moreover from 3 have "reach ((val # rest) ! 0) steps w" by simp
      ultimately show ?thesis by (metis length_greater_0_conv list.distinct(1))
    qed
  next
    case 2
    then have "Suc j < length (val # rest)" "reach ((val # rest) ! Suc j) r w"
      "p = extendPath currentPath (Idx (i + Suc j) # r)"
      by simp_all
    then show ?thesis by blast
  qed
qed

section \<open>Properties of the path engine\<close>

subsection \<open>The tokenizer\<close>

text \<open>
  C8. The tokenizer emits \<^verbatim>\<open>key[0]\<close> as the two segments \<^verbatim>\<open>key\<close> and \<^verbatim>\<open>[0]\<close>.
  For every path: key text (not empty, well-formed UTF-8, no dot, no bracket) that
  stands before an opening bracket is emitted as a segment of its own, and what
  follows is tokenized as it is without that text; text without brackets between two
  brackets is emitted as one bracketed segment; key text before a dot is emitted as a
  segment. In the loop, an opening bracket outside brackets first flushes the pending
  text, whatever the state. So every segment of every tokenized path is not empty and
  is plain (no bracket in it) or bracketed (\<open>[c]\<close> with no bracket in \<open>c\<close>), and the
  segment parser never reads a key together with an index from it.
\<close>

theorem C8_tokenizer_splits_key_and_index:
  "parsePath ''key[0]'' = [''key'', ''[0]''] \<and>
   (path_key k \<longrightarrow> parsePath (k @ CHR ''['' # rest) = k # parsePath (CHR ''['' # rest)) \<and>
   (plain c \<and> valid_utf8 c \<longrightarrow>
      parsePath (CHR ''['' # c @ CHR '']'' # rest) = (CHR ''['' # c @ '']'') # parsePath rest) \<and>
   (path_key k \<and> plain c \<and> valid_utf8 c \<longrightarrow>
      parsePath (k @ CHR ''['' # c @ CHR '']'' # rest) = k # (CHR ''['' # c @ '']'') # parsePath rest) \<and>
   (path_key k \<longrightarrow> parsePath (k @ CHR ''.'' # rest) = k # parsePath rest) \<and>
   parseLoop (CHR ''['' # cs) parts current False
     = parseLoop cs (if current \<noteq> [] then parts @ [current] else parts) [] True \<and>
   (\<forall>s\<in>set (parsePath p). s \<noteq> [] \<and> (plain s \<or> bracketed s) \<and>
      (\<exists>key index isArray. parsePart s = Ok (key, index, isArray) \<and> (isArray \<longrightarrow> key = [])))"
proof -
  have key_open: "parsePath (k @ CHR ''['' # rest) = k # parsePath (CHR ''['' # rest)"
    if "path_key k" for k rest
  proof -
    from that have k: "k \<noteq> []" "plain k" "dotfree k" "valid_utf8 k"
      by (simp_all add: path_key_def)
    have "parsePath (k @ CHR ''['' # rest) = parseLoop (CHR ''['' # rest) [] k False"
      unfolding parsePath_def parseLoop_key_chars [OF k(4,2,3)] by simp
    also have "\<dots> = parseLoop rest ([k] @ []) [] True"
      using k(1) by simp
    also have "\<dots> = [k] @ parseLoop rest [] [] True"
      by (rule parseLoop_parts)
    finally show ?thesis by (simp add: parsePath_def)
  qed
  have brackets: "parsePath (CHR ''['' # c @ CHR '']'' # rest) = (CHR ''['' # c @ '']'') # parsePath rest"
    if "plain c \<and> valid_utf8 c" for c rest
  proof -
    from that have c: "plain c" "valid_utf8 c" by simp_all
    have "parsePath (CHR ''['' # c @ CHR '']'' # rest)
            = parseLoop rest ([CHR ''['' # c @ '']''] @ []) [] False"
      unfolding parsePath_def parseLoop_bracketed [OF c] by (simp add: flush_def)
    also have "\<dots> = [CHR ''['' # c @ '']''] @ parseLoop rest [] [] False"
      by (rule parseLoop_parts)
    finally show ?thesis by (simp add: parsePath_def)
  qed
  have key_dot: "parsePath (k @ CHR ''.'' # rest) = k # parsePath rest"
    if "path_key k" for k rest
  proof -
    from that have k: "k \<noteq> []" "plain k" "dotfree k" "valid_utf8 k"
      by (simp_all add: path_key_def)
    have "parsePath (k @ CHR ''.'' # rest) = parseLoop (CHR ''.'' # rest) [] k False"
      unfolding parsePath_def parseLoop_key_chars [OF k(4,2,3)] by simp
    also have "\<dots> = parseLoop rest ([k] @ []) [] False"
      using k(1) by simp
    also have "\<dots> = [k] @ parseLoop rest [] [] False"
      by (rule parseLoop_parts)
    finally show ?thesis by (simp add: parsePath_def)
  qed
  have shape: "s \<noteq> [] \<and> (plain s \<or> bracketed s) \<and>
      (\<exists>key index isArray. parsePart s = Ok (key, index, isArray) \<and> (isArray \<longrightarrow> key = []))"
    if "s \<in> set (parsePath p)" for s
  proof -
    from that have ok: "seg_ok s" by (rule parsePath_seg_ok)
    then have "s \<noteq> []" "plain s \<or> bracketed s" by (auto simp: seg_ok_def bracketed_def)
    with parsePart_seg_ok [OF ok] show ?thesis by simp
  qed
  have "parsePath ''key[0]'' = [''key'', ''[0]'']" by (simp add: parsePath_def)
  moreover have "parseLoop (CHR ''['' # cs) parts current False
     = parseLoop cs (if current \<noteq> [] then parts @ [current] else parts) [] True"
    by simp
  ultimately show ?thesis
    using key_open [of k rest] brackets [of c rest] key_dot [of k rest] shape
      key_open [of k "c @ CHR '']'' # rest"]
    by simp
qed

theorem C8_witness:
  "parsePath ''key[0]'' = [''key'', ''[0]''] \<and>
   parsePath ''key[0].b'' = ''key'' # ''[0]'' # parsePath ''.b'' \<and>
   parsePath ''a.key[0]'' = ''a'' # parsePath ''key[0]'' \<and>
   parsePart ''key'' = Ok (''key'', - 1, False) \<and> parsePart ''[0]'' = Ok ([], 0, True)"
proof -
  have k: "path_key ''key''" "path_key ''a''" "plain ''0'' \<and> valid_utf8 ''0''"
    by (simp_all add: path_key_def plain_def dotfree_def)
  have "parsePart ''key'' = Ok (''key'', - 1, False)"
    by (simp add: parsePart_plain plain_def)
  moreover have "parsePart ''[0]'' = Ok ([], 0, True)"
    using parsePart_bracketed [of "''0''"] by (simp add: Atoi_def digit_of_def)
  ultimately show ?thesis
    using C8_tokenizer_splits_key_and_index [of "''key''" "''.b''" "''0''" "[]" "[]" "[]" "''key[0]''"]
      C8_tokenizer_splits_key_and_index [of "''a''" "''key[0]''" "''0''" "[]" "[]" "[]" "[]"] k
    by simp
qed

text \<open>
  C9 (amended). For every path \<open>p\<close> and every prefix of the segments of \<open>p\<close> in which
  no segment outside brackets holds a dot: joining the prefix with dots and tokenizing
  the result gives the prefix again. (A segment outside brackets holds a dot only when
  the path has text with a dot after an opening bracket that is not closed.)
\<close>

theorem C9_rejoin:
  assumes "\<forall>s\<in>set (take n (parsePath p)). bracketed s \<or> CHR ''.'' \<notin> set s"
  shows "parsePath (Join (take n (parsePath p)) ''.'') = take n (parsePath p)"
proof (rule parsePath_Join, rule ballI)
  fix s assume s: "s \<in> set (take n (parsePath p))"
  then have "tok_seg s" using parsePath_tok_seg [of s p] by (auto dest: in_set_takeD)
  with assms s show "rejoinable s"
    by (auto intro: tok_seg_rejoinable)
qed

theorem C9_witness:
  "parsePath (Join (take 2 (parsePath ''a[0].b'')) ''.'') = [''a'', ''[0]'']"
  using C9_rejoin [of 2 "''a[0].b''"]
  by (simp add: parsePath_def bracketed_def plain_def)

text \<open>
  Without the restriction the property fails, at the path \<^verbatim>\<open>[a.b[c]\<close>: its
  segments are \<^verbatim>\<open>a.b\<close> and \<^verbatim>\<open>[c]\<close>, and the parent path \<^verbatim>\<open>a.b\<close> that the mutator builds from the first of
  them is tokenized into \<^verbatim>\<open>a\<close> and \<^verbatim>\<open>b\<close>.
\<close>

theorem C9_counterexample:
  "parsePath ''[a.b[c]'' = [''a.b'', ''[c]''] \<and>
   parsePath (Join (take 1 (parsePath ''[a.b[c]'')) ''.'') = [''a'', ''b''] \<and>
   parsePath (Join (take 1 (parsePath ''[a.b[c]'')) ''.'') \<noteq> take 1 (parsePath ''[a.b[c]'')"
  by (simp add: parsePath_def)

subsection \<open>The navigator\<close>

text \<open>
  C6. For every tree, \<open>GetValueByPath\<close> with the empty path returns the tree itself and
  no fault, whatever the shape of the tree (scalars and null included).
\<close>

theorem C6_empty_path_identity: "GetValueByPath t [] = Ok t"
  by (simp add: GetValueByPath_def)

theorem C6_witness: "GetValueByPath JNull [] = Ok JNull \<and> GetValueByPath (JStr ''s'') [] = Ok (JStr ''s'')"
  using C6_empty_path_identity [of JNull] C6_empty_path_identity [of "JStr ''s''"] by simp

text \<open>
  C4. For every tree and every path, \<open>HasPath\<close> returns true if and only if
  \<open>GetValueByPath\<close> returns a value and no fault (and \<open>HasPath\<close> always returns).
\<close>

theorem C4_HasPath_iff_Get:
  "HasPath t p = Ok (\<exists>v. GetValueByPath t p = Ok v)"
  using GetValueByPath_no_panic [of t p]
  by (cases "GetValueByPath t p") (simp_all add: HasPath_def)

theorem C4_witness:
  "HasPath user_tree ''user.name'' = Ok True \<and> HasPath user_tree ''user.email'' = Ok False"
proof -
  have "GetValueByPath user_tree ''user.name'' = Ok (JStr ''J'')"
    by (simp add: GetValueByPath_def parsePath_def user_tree_def parsePart_plain plain_def)
  moreover have "GetValueByPath user_tree ''user.email'' = Err (KeyNotFound ''email'' 1 ''email'')"
    by (simp add: GetValueByPath_def parsePath_def user_tree_def parsePart_plain plain_def)
  ultimately show ?thesis
    using C4_HasPath_iff_Get [of user_tree "''user.name''"]
      C4_HasPath_iff_Get [of user_tree "''user.email''"]
    by simp
qed

text \<open>
  C7. When the navigator stands on an array and the segment at hand is an index that is
  negative or not below the length of the array, \<open>GetValueByPath\<close> returns the
  index-out-of-range fault for that segment; in particular the path \<^verbatim>\<open>items[5]\<close>
  against an array of two elements under the key \<^verbatim>\<open>items\<close>. \<open>GetValueByPath\<close> never
  panics.
\<close>

theorem C7_index_out_of_range:
  "(path \<noteq> [] \<and> parsePath path = before @ part # rest \<and>
    getLoop data 0 before = Ok (JArr v) \<and> parsePart part = Ok (key, index, True) \<and>
    (index < 0 \<or> int (length v) \<le> index)
    \<longrightarrow> GetValueByPath data path = Err (IndexOutOfRange part (length before) index))
   \<and> (map_of m ''items'' = Some (JArr [a, b])
    \<longrightarrow> GetValueByPath (JObj m) ''items[5]'' = Err (IndexOutOfRange ''[5]'' 1 5))
   \<and> GetValueByPath data path \<noteq> Panic"
proof (intro conjI impI)
  assume h: "path \<noteq> [] \<and> parsePath path = before @ part # rest \<and>
    getLoop data 0 before = Ok (JArr v) \<and> parsePart part = Ok (key, index, True) \<and>
    (index < 0 \<or> int (length v) \<le> index)"
  then have "getLoop data 0 (before @ part # rest) = Err (IndexOutOfRange part (length before) index)"
    by (auto simp: getLoop_append)
  with h show "GetValueByPath data path = Err (IndexOutOfRange part (length before) index)"
    by (simp add: GetValueByPath_def)
next
  assume "map_of m ''items'' = Some (JArr [a, b])"
  then show "GetValueByPath (JObj m) ''items[5]'' = Err (IndexOutOfRange ''[5]'' 1 5)"
    by (simp add: GetValueByPath_def parsePath_items5 parsePart_items parsePart_5)
next
  show "GetValueByPath data path \<noteq> Panic"
    by (rule GetValueByPath_no_panic)
qed

theorem C7_witness:
  "GetValueByPath (JObj [(''items'', JArr [JStr ''a'', JStr ''b''])]) ''items[5]''
     = Err (IndexOutOfRange ''[5]'' 1 5)"
  using C7_index_out_of_range
    [of "''items[5]''" "[''items'']" "''[5]''" "[]"
        "JObj [(''items'', JArr [JStr ''a'', JStr ''b''])]" "[JStr ''a'', JStr ''b'']" "[]" 5
        "[(''items'', JArr [JStr ''a'', JStr ''b''])]" "JStr ''a''" "JStr ''b''"]
  by (simp add: parsePath_items5 parsePart_items parsePart_5)

text \<open>
  A bracketed segment is an index exactly when \<open>Atoi\<close> accepts what stands between
  the brackets. Otherwise \<open>parsePart\<close> makes it the empty key, and on an array the
  navigator searches the elements for that key: so it is with digits beyond the range
  of \<^verbatim>\<open>int\<close>.
\<close>

lemma bracketed_segment_is_index:
  "(\<exists>idx. parsePart (CHR ''['' # c @ '']'') = Ok ([], idx, True)) \<longleftrightarrow> Atoi c \<noteq> None"
  by (cases "Atoi c") (simp_all add: parsePart_bracketed)

lemma digits_beyond_int:
  "Atoi ''9223372036854775808'' = None \<and>
   GetValueByPath (JArr [JObj [([], JStr ''v'')]]) ''[9223372036854775808]'' = Ok (JStr ''v'')"
proof -
  have a: "Atoi ''9223372036854775808'' = None"
    by (simp add: Atoi_def digit_of_def)
  have "parsePath ''[9223372036854775808]'' = [''[9223372036854775808]'']"
    by (simp add: parsePath_def)
  moreover have "parsePart ''[9223372036854775808]'' = Ok ([], - 1, False)"
    using parsePart_bracketed [of "''9223372036854775808''"] by (simp add: a)
  ultimately show ?thesis
    by (simp add: a GetValueByPath_def)
qed

subsection \<open>The mutator\<close>

text \<open>
  C2 (amended). For every tree \<open>t\<close>, path \<open>p\<close> and value \<open>v\<close> such that
  \<open>GetValueByPath t p\<close> succeeds, \<open>p\<close> has at least one segment, no segment outside
  brackets before the last holds a dot, and the last segment is an index whenever the
  parent (the value at the segments before the last) is an array:
  \<open>SetValueByPath t p v\<close> succeeds, and \<open>GetValueByPath\<close> on the tree after it succeeds
  and returns exactly \<open>v\<close>.
\<close>

theorem C2_set_then_get:
  assumes get: "GetValueByPath t p = Ok old"
    and nonempty: "parsePath p \<noteq> []"
    and keys: "\<forall>s\<in>set (butlast (parsePath p)). bracketed s \<or> CHR ''.'' \<notin> set s"
    and last: "\<forall>xs. GetValueByPath t (Join (butlast (parsePath p)) ''.'') = Ok (JArr xs)
                 \<longrightarrow> (\<exists>k idx. parsePart (last (parsePath p)) = Ok (k, idx, True))"
  shows "\<exists>t'. SetValueByPath t p v = (t', Ok ()) \<and> GetValueByPath t' p = Ok v"
proof -
  define ps where "ps = butlast (parsePath p)"
  define l where "l = last (parsePath p)"
  have parts: "parsePath p = ps @ [l]"
    using nonempty by (simp add: ps_def l_def)
  have "\<forall>s\<in>set ps. rejoinable s"
  proof
    fix s assume s: "s \<in> set ps"
    then have "tok_seg s" using parsePath_tok_seg [of s p] parts by simp
    with keys s show "rejoinable s"
      by (auto intro: tok_seg_rejoinable simp: ps_def)
  qed
  then have rejoin: "parsePath (Join ps ''.'') = ps" by (rule parsePath_Join)
  from get have "getLoop t 0 (ps @ [l]) = Ok old"
    by (simp add: GetValueByPath_getLoop parts)
  then obtain parent where parent: "getLoop t 0 ps = Ok parent"
    and step: "getLoop parent (0 + length ps) [l] = Ok old"
    by (auto simp: getLoop_append split: result.splits)
  from last parent have "\<forall>xs. parent = JArr xs \<longrightarrow> (\<exists>k idx. parsePart l = Ok (k, idx, True))"
    by (simp add: GetValueByPath_getLoop rejoin ps_def [symmetric] l_def [symmetric])
  with step obtain parent' where set: "setValueAtPath parent l v = (parent', Ok ())"
    and got: "getLoop parent' (0 + length ps) [l] = Ok v"
    using setValueAtPath_after_get by blast
  have "SetValueByPath t p v = (storeAt t ps parent', Ok ())"
    by (simp add: SetValueByPath_unfold [OF parts] rejoin parent set)
  moreover have "GetValueByPath (storeAt t ps parent') p = Ok v"
    using getLoop_storeAt [OF parent, of parent'] got
    by (simp add: GetValueByPath_getLoop parts getLoop_append)
  ultimately show ?thesis by blast
qed

theorem C2_witness:
  "GetValueByPath array_tree ''a[0]'' = Ok (JStr ''x'') \<and>
   (\<exists>t'. SetValueByPath array_tree ''a[0]'' (JStr ''y'') = (t', Ok ()) \<and>
         GetValueByPath t' ''a[0]'' = Ok (JStr ''y''))"
proof -
  have parts: "parsePath ''a[0]'' = [''a'', ''[0]'']"
    by (simp add: parsePath_def)
  have a: "parsePart ''a'' = Ok (''a'', - 1, False)"
    by (simp add: parsePart_plain plain_def)
  have i: "parsePart ''[0]'' = Ok ([], 0, True)"
    using parsePart_bracketed [of "''0''"] by (simp add: Atoi_def digit_of_def)
  have get: "GetValueByPath array_tree ''a[0]'' = Ok (JStr ''x'')"
    by (simp add: GetValueByPath_def parts a i array_tree_def)
  have parent: "GetValueByPath array_tree ''a'' = Ok (JArr [JStr ''x''])"
    by (simp add: GetValueByPath_def parsePath_def a array_tree_def)
  show ?thesis
    using C2_set_then_get [of array_tree "''a[0]''" "JStr ''x''" "JStr ''y''"] get
    by (simp add: parts parent i)
qed

text \<open>
  Without the last restriction the property fails, on \<^verbatim>\<open>{"a":[{"b":"x"}]}\<close> at
  the path \<^verbatim>\<open>a.b\<close>:
  the navigator finds \<^verbatim>\<open>b\<close> by searching the elements of the array, the mutator
  refuses a key on an array, and the tree still holds \<^verbatim>\<open>"x"\<close>, not the new value.
\<close>

theorem C2_counterexample:
  "GetValueByPath nested_tree ''a.b'' = Ok (JStr ''x'') \<and>
   SetValueByPath nested_tree ''a.b'' (JStr ''y'') = (nested_tree, Err (SetKeyOnArray ''b'')) \<and>
   GetValueByPath (fst (SetValueByPath nested_tree ''a.b'' (JStr ''y''))) ''a.b'' = Ok (JStr ''x'')"
proof -
  have parts: "parsePath ''a.b'' = [''a'', ''b'']" "parsePath ''a'' = [''a'']"
    by (simp_all add: parsePath_def)
  have a: "parsePart ''a'' = Ok (''a'', - 1, False)" "parsePart ''b'' = Ok (''b'', - 1, False)"
    by (simp_all add: parsePart_plain plain_def)
  have get: "GetValueByPath nested_tree ''a.b'' = Ok (JStr ''x'')"
    by (simp add: GetValueByPath_def parts a nested_tree_def)
  have set: "SetValueByPath nested_tree ''a.b'' (JStr ''y'')
               = (nested_tree, Err (SetKeyOnArray ''b''))"
    by (simp add: SetValueByPath_def GetValueByPath_def setValueAtPath_def parts a nested_tree_def)
  show ?thesis by (simp add: set get)
qed

text \<open>
  The other two restrictions are needed as well. The mutator refuses the empty path
  and a path without a segment, which the navigator resolves to the tree itself. And it
  reaches the parent through the joined segments: on
  \<^verbatim>\<open>{"a.b":["x"],"a":{"b":["z"]}}\<close> the path \<^verbatim>\<open>[a.b[0]\<close> has the segments
  \<^verbatim>\<open>a.b\<close> and \<^verbatim>\<open>[0]\<close>, the navigator reads \<^verbatim>\<open>"x"\<close>, and the mutator writes
  into the array under \<^verbatim>\<open>a\<close>, \<^verbatim>\<open>b\<close>.
\<close>

lemma set_refuses_empty_path:
  "GetValueByPath t [] = Ok t \<and> SetValueByPath t [] v = (t, Err PathEmpty)"
  by (simp add: GetValueByPath_def SetValueByPath_def)

lemma set_refuses_path_without_segment:
  "GetValueByPath t ''.'' = Ok t \<and> SetValueByPath t ''.'' v = (t, Err InvalidPath)"
  by (simp add: GetValueByPath_def SetValueByPath_def parsePath_def)

lemma set_through_rejoined_parent:
  "GetValueByPath dotted_key_tree ''[a.b[0]'' = Ok (JStr ''x'') \<and>
   SetValueByPath dotted_key_tree ''[a.b[0]'' (JStr ''y'')
     = (JObj [(''a.b'', JArr [JStr ''x'']), (''a'', JObj [(''b'', JArr [JStr ''y''])])], Ok ()) \<and>
   GetValueByPath (fst (SetValueByPath dotted_key_tree ''[a.b[0]'' (JStr ''y''))) ''[a.b[0]''
     = Ok (JStr ''x'')"
proof -
  have parts: "parsePath ''[a.b[0]'' = [''a.b'', ''[0]'']" "parsePath ''a.b'' = [''a'', ''b'']"
    by (simp_all add: parsePath_def)
  have k: "parsePart ''a.b'' = Ok (''a.b'', - 1, False)" "parsePart ''a'' = Ok (''a'', - 1, False)"
    "parsePart ''b'' = Ok (''b'', - 1, False)"
    by (simp_all add: parsePart_plain plain_def)
  have i: "parsePart ''[0]'' = Ok ([], 0, True)"
    using parsePart_bracketed [of "''0''"] by (simp add: Atoi_def digit_of_def)
  have get: "GetValueByPath dotted_key_tree ''[a.b[0]'' = Ok (JStr ''x'')"
    by (simp add: GetValueByPath_def parts k i dotted_key_tree_def)
  have set: "SetValueByPath dotted_key_tree ''[a.b[0]'' (JStr ''y'')
     = (JObj [(''a.b'', JArr [JStr ''x'']), (''a'', JObj [(''b'', JArr [JStr ''y''])])], Ok ())"
    by (simp add: SetValueByPath_def GetValueByPath_def setValueAtPath_def parts k i
          dotted_key_tree_def)
  have "GetValueByPath (JObj [(''a.b'', JArr [JStr ''x'']), (''a'', JObj [(''b'', JArr [JStr ''y''])])])
          ''[a.b[0]'' = Ok (JStr ''x'')"
    by (simp add: GetValueByPath_def parts k i)
  with get set show ?thesis by simp
qed

text \<open>
  C5. When the parent (the value at the segments before the last) is an array and the
  last segment is an index that is negative or not below its length, \<open>SetValueByPath\<close>
  returns the index-out-of-range fault and the tree is as it was. Every call that does
  not succeed leaves the tree as it was; and a call succeeds only when the parent path
  resolves to a map and the last segment is a key, or to an array and the last segment
  is an index within its bounds: no array grows and no container is made on the way.
\<close>

theorem C5_set_out_of_range:
  "(parsePath p \<noteq> [] \<and>
    GetValueByPath t (Join (butlast (parsePath p)) ''.'') = Ok (JArr xs) \<and>
    parsePart (last (parsePath p)) = Ok (key, idx, True) \<and>
    (idx < 0 \<or> int (length xs) \<le> idx)
    \<longrightarrow> SetValueByPath t p v = (t, Err (SetIndexOutOfRange idx)))
   \<and> (SetValueByPath t p v = (t', r) \<and> r \<noteq> Ok () \<longrightarrow> t' = t)
   \<and> (SetValueByPath t p v = (t', Ok ()) \<longrightarrow>
        (\<exists>parent. GetValueByPath t (Join (butlast (parsePath p)) ''.'') = Ok parent \<and>
           ((\<exists>m k n. parent = JObj m \<and> parsePart (last (parsePath p)) = Ok (k, n, False)) \<or>
            (\<exists>ys k n. parent = JArr ys \<and> parsePart (last (parsePath p)) = Ok (k, n, True)
                \<and> 0 \<le> n \<and> n < int (length ys)))))"
proof (cases "parsePath p = []")
  case True
  then show ?thesis
    by (auto simp: SetValueByPath_def)
next
  case False
  define ps where "ps = butlast (parsePath p)"
  define l where "l = last (parsePath p)"
  have parts: "parsePath p = ps @ [l]"
    using False by (simp add: ps_def l_def)
  note unfold = SetValueByPath_unfold [OF parts, of t v]
  show ?thesis
  proof (cases "getLoop t 0 (parsePath (Join ps ''.''))")
    case (Ok parent)
    obtain parent' r' where sv: "setValueAtPath parent l v = (parent', r')"
      by (cases "setValueAtPath parent l v")
    have same: "storeAt t (parsePath (Join ps ''.'')) parent = t"
      using Ok by (rule storeAt_same)
    have res: "SetValueByPath t p v = (storeAt t (parsePath (Join ps ''.'')) parent', r')"
      by (simp add: unfold Ok sv)
    have 1: "parsePath p \<noteq> [] \<and>
        GetValueByPath t (Join (butlast (parsePath p)) ''.'') = Ok (JArr xs) \<and>
        parsePart (last (parsePath p)) = Ok (key, idx, True) \<and>
        (idx < 0 \<or> int (length xs) \<le> idx)
        \<longrightarrow> SetValueByPath t p v = (t, Err (SetIndexOutOfRange idx))"
    proof
      assume h: "parsePath p \<noteq> [] \<and>
        GetValueByPath t (Join (butlast (parsePath p)) ''.'') = Ok (JArr xs) \<and>
        parsePart (last (parsePath p)) = Ok (key, idx, True) \<and>
        (idx < 0 \<or> int (length xs) \<le> idx)"
      with Ok have "parent = JArr xs" by (simp add: GetValueByPath_getLoop ps_def)
      with h have "setValueAtPath parent l v = (parent, Err (SetIndexOutOfRange idx))"
        by (auto simp: setValueAtPath_def l_def)
      with sv res same show "SetValueByPath t p v = (t, Err (SetIndexOutOfRange idx))" by simp
    qed
    have 2: "SetValueByPath t p v = (t', r) \<and> r \<noteq> Ok () \<longrightarrow> t' = t"
      using res same setValueAtPath_fail_same [OF sv] by auto
    have 3: "SetValueByPath t p v = (t', Ok ()) \<longrightarrow>
        (\<exists>parent. GetValueByPath t (Join (butlast (parsePath p)) ''.'') = Ok parent \<and>
           ((\<exists>m k n. parent = JObj m \<and> parsePart (last (parsePath p)) = Ok (k, n, False)) \<or>
            (\<exists>ys k n. parent = JArr ys \<and> parsePart (last (parsePath p)) = Ok (k, n, True)
                \<and> 0 \<le> n \<and> n < int (length ys))))"
    proof
      assume "SetValueByPath t p v = (t', Ok ())"
      with res sv have "setValueAtPath parent l v = (parent', Ok ())" by simp
      from setValueAtPath_ok_shape [OF this] Ok show "\<exists>parent.
           GetValueByPath t (Join (butlast (parsePath p)) ''.'') = Ok parent \<and>
           ((\<exists>m k n. parent = JObj m \<and> parsePart (last (parsePath p)) = Ok (k, n, False)) \<or>
            (\<exists>ys k n. parent = JArr ys \<and> parsePart (last (parsePath p)) = Ok (k, n, True)
                \<and> 0 \<le> n \<and> n < int (length ys)))"
        by (simp add: GetValueByPath_getLoop ps_def [symmetric] l_def [symmetric])
    qed
    from 1 2 3 show ?thesis by blast
  next
    case (Err e)
    then show ?thesis
      by (auto simp: unfold GetValueByPath_getLoop ps_def [symmetric])
  next
    case Panic
    then show ?thesis
      by (auto simp: unfold GetValueByPath_getLoop ps_def [symmetric])
  qed
qed

theorem C5_witness:
  "SetValueByPath array_tree ''a[3]'' (JStr ''y'') = (array_tree, Err (SetIndexOutOfRange 3))"
proof -
  have parts: "parsePath ''a[3]'' = [''a'', ''[3]'']"
    by (simp add: parsePath_def)
  have a: "parsePart ''a'' = Ok (''a'', - 1, False)"
    by (simp add: parsePart_plain plain_def)
  have i: "parsePart ''[3]'' = Ok ([], 3, True)"
    using parsePart_bracketed [of "''3''"] by (simp add: Atoi_def digit_of_def)
  have parent: "GetValueByPath array_tree ''a'' = Ok (JArr [JStr ''x''])"
    by (simp add: GetValueByPath_def parsePath_def a array_tree_def)
  show ?thesis
    using C5_set_out_of_range
      [of "''a[3]''" array_tree "[JStr ''x'']" "[]" 3 "JStr ''y''" array_tree "Ok ()"]
    by (simp add: parts parent i)
qed

subsection \<open>The finder\<close>

text \<open>
  C1 (amended). For every tree, \<open>FindPaths\<close> with options in which no filter is set
  (or with no options at all) returns every path of the tree and no error: the paths
  that \<open>GetAllPaths\<close> returns, each as often, in an order that may differ, since each
  walk ranges over the maps in an order of its own (so the two results are equal as
  sets). \<open>matchesOptions\<close> with options that set no filter is true of every node.
\<close>

theorem C1_no_filter_finds_every_path:
  assumes "same_value t t'"
  shows "mset (fst (FindPaths lib t (Some no_filter))) = mset (GetAllPaths t') \<and>
         snd (FindPaths lib t (Some no_filter)) = None \<and>
         mset (fst (FindPaths lib t None)) = mset (GetAllPaths t') \<and>
         snd (FindPaths lib t None) = None \<and>
         matchesOptions lib val key (Some no_filter)"
proof -
  have "FindPaths lib t (Some no_filter) = (getAllPathsRecursive t [] [], None)"
    and "FindPaths lib t None = (getAllPathsRecursive t [] [], None)"
    using findPaths_no_filter(1) [of "Some no_filter" lib t "[]" "[]"]
    by (simp_all add: FindPaths_def)
  moreover have "mset (getAllPathsRecursive t [] []) = mset (GetAllPaths t')"
    unfolding GetAllPaths_def using assms by (rule same_value_paths)
  ultimately show ?thesis
    by (simp add: matchesOptions_no_filter)
qed

theorem C1_witness:
  "mset (fst (FindPaths literal_lib user_tree (Some no_filter))) = mset (GetAllPaths user_tree') \<and>
   fst (FindPaths literal_lib user_tree (Some no_filter))
     = [''user'', ''user.name'', ''user.items'', ''user.items[0]'', ''user.items[0].name''] \<and>
   GetAllPaths user_tree'
     = [''user'', ''user.items'', ''user.items[0]'', ''user.items[0].name'', ''user.name'']"
proof -
  have "FindPaths literal_lib user_tree (Some no_filter)
     = ([''user'', ''user.name'', ''user.items'', ''user.items[0]'', ''user.items[0].name''], None)"
    using findPaths_no_filter(1) [of "Some no_filter" literal_lib user_tree "[]" "[]"]
    by (simp add: FindPaths_def user_tree_def itoa_0)
  moreover have "GetAllPaths user_tree'
     = [''user'', ''user.items'', ''user.items[0]'', ''user.items[0].name'', ''user.name'']"
    by (simp add: GetAllPaths_def user_tree'_def itoa_0)
  ultimately show ?thesis
    using C1_no_filter_finds_every_path [OF same_user_trees, of literal_lib JNull "[]"]
    by simp
qed

text \<open>
  So the result is not empty as soon as the tree has a path: on \<^verbatim>\<open>{"a":null}\<close>
  the path \<^verbatim>\<open>a\<close> is returned.
\<close>

theorem C1_counterexample:
  "FindPaths literal_lib (JObj [(''a'', JNull)]) (Some no_filter) = ([''a''], None) \<and>
   fst (FindPaths literal_lib (JObj [(''a'', JNull)]) (Some no_filter)) \<noteq> [] \<and>
   matchesOptions literal_lib JNull ''a'' (Some no_filter)"
  by (simp add: FindPaths_def matchesOptions_no_filter)

text \<open>
  C3. What \<open>FindPaths\<close> returns for the key pattern \<^verbatim>\<open>name\<close> on \<^verbatim>\<open>{"user":{"name":"J","items":[{"name":"x"}]}}\<close>, for every
  regular-expression matcher under which \<^verbatim>\<open>name\<close> matches the key \<^verbatim>\<open>name\<close> and
  neither \<^verbatim>\<open>user\<close> nor \<^verbatim>\<open>items\<close>. The result holds the array element
  \<^verbatim>\<open>user.items[0]\<close> next to \<^verbatim>\<open>user.name\<close> and \<^verbatim>\<open>user.items[0].name\<close>, in
  either order of the map:
  an array element is tested with the empty key, for which \<open>matchesOptions\<close> skips
  the key pattern.
\<close>

theorem C3_key_pattern_on_user_tree:
  assumes "MatchString lib ''name'' ''name''"
    and "\<not> MatchString lib ''name'' ''user''"
    and "\<not> MatchString lib ''name'' ''items''"
  shows "FindPaths lib user_tree (Some name_filter)
           = ([''user.name'', ''user.items[0]'', ''user.items[0].name''], None)
       \<and> FindPaths lib user_tree' (Some name_filter)
           = ([''user.items[0]'', ''user.items[0].name'', ''user.name''], None)"
  using assms
  by (simp add: FindPaths_def user_tree_def user_tree'_def matches_name_filter itoa_0)

theorem C3_witness:
  "FindPaths literal_lib user_tree (Some name_filter)
           = ([''user.name'', ''user.items[0]'', ''user.items[0].name''], None)
       \<and> FindPaths literal_lib user_tree' (Some name_filter)
           = ([''user.items[0]'', ''user.items[0].name'', ''user.name''], None)"
  using C3_key_pattern_on_user_tree [of literal_lib]
  by (simp add: literal_name)

text \<open>
  C10 (amended). For every tree that Go can build (no key twice in a map, lengths
  within \<^verbatim>\<open>int\<close>) whose keys, at every depth, are not empty, are well-formed UTF-8
  and hold no dot, no opening and no closing bracket: every path that \<open>GetAllPaths\<close>
  returns resolves against the tree (\<open>HasPath\<close> is true of it), and none is the empty
  path.
\<close>

theorem C10_all_paths_resolve:
  assumes "wf_json t" and "all_keys path_key t"
  shows "\<forall>p\<in>set (GetAllPaths t). HasPath t p = Ok True \<and> p \<noteq> []"
proof
  fix p assume "p \<in> set (GetAllPaths t)"
  then obtain steps w where steps: "steps \<noteq> []" "reach t steps w" "p = extendPath [] steps"
    using getAllPaths_reach(1) [of p t "[]" "[]"] by (auto simp: GetAllPaths_def)
  from reach_steps_ok [OF steps(2) assms(2)] have ok: "list_all step_ok steps" .
  from extend_root [OF steps(1) ok] steps(3)
  have p: "p \<noteq> []" "parsePath p = map seg_of steps" by simp_all
  from getLoop_reach [OF steps(2) assms(1) ok, of 0] p
  have "GetValueByPath t p = Ok w" by (simp add: GetValueByPath_def)
  with p(1) show "HasPath t p = Ok True \<and> p \<noteq> []" by (simp add: HasPath_def)
qed

theorem C10_witness:
  "wf_json user_tree \<and> all_keys path_key user_tree \<and>
   GetAllPaths user_tree
     = [''user'', ''user.name'', ''user.items'', ''user.items[0]'', ''user.items[0].name''] \<and>
   HasPath user_tree ''user.items[0].name'' = Ok True"
proof -
  have wf: "wf_json user_tree"
    by (simp add: user_tree_def)
  have keys: "all_keys path_key user_tree"
    by (simp add: user_tree_def path_key_def plain_def dotfree_def)
  have paths: "GetAllPaths user_tree
     = [''user'', ''user.name'', ''user.items'', ''user.items[0]'', ''user.items[0].name'']"
    by (simp add: GetAllPaths_def user_tree_def itoa_0)
  show ?thesis
    using C10_all_paths_resolve [OF wf keys] wf keys by (simp add: paths)
qed

text \<open>
  Keys without a dot and without an opening bracket are not enough. The keys of
  \<^verbatim>\<open>{"":null,"a]":null}\<close> hold neither: the paths returned are the empty path and
  \<^verbatim>\<open>a]\<close>, and the second does not resolve (the tokenizer drops the closing bracket).
\<close>

theorem C10_counterexample:
  "wf_json odd_keys_tree \<and> all_keys dot_bracket_free odd_keys_tree \<and>
   GetAllPaths odd_keys_tree = [[], ''a]''] \<and>
   HasPath odd_keys_tree ''a]'' = Ok False"
proof -
  have "GetValueByPath odd_keys_tree ''a]'' = Err (KeyNotFound ''a'' 0 ''a'')"
    by (simp add: GetValueByPath_def parsePath_def odd_keys_tree_def parsePart_plain plain_def)
  then show ?thesis
    by (simp add: HasPath_def GetAllPaths_def odd_keys_tree_def dot_bracket_free_def)
qed

text \<open>
  The keys must be well-formed UTF-8 too: the tokenizer reads the byte \<^verbatim>\<open>0xFF\<close> of
  the path as the rune U+FFFD and looks that up, and the key is the byte.
\<close>

lemma ill_formed_key:
  "GetAllPaths (JObj [([CHR 0xFF], JNull)]) = [[CHR 0xFF]] \<and>
   parsePath [CHR 0xFF] = [RuneError] \<and>
   HasPath (JObj [([CHR 0xFF], JNull)]) [CHR 0xFF] = Ok False"
proof -
  have p: "parsePath [CHR 0xFF] = [RuneError]"
    by (simp add: parsePath_def parseLoop.simps(2) nextRune_def runeLen_def seqLen_def byte_in_def
          RuneError_def)
  have "parsePart RuneError = Ok (RuneError, - 1, False)"
    by (rule parsePart_plain) (simp add: RuneError_def plain_def)
  then have "GetValueByPath (JObj [([CHR 0xFF], JNull)]) [CHR 0xFF]
               = Err (KeyNotFound RuneError 0 RuneError)"
    by (simp add: GetValueByPath_def p) (simp add: RuneError_def)
  with p show ?thesis by (simp add: HasPath_def GetAllPaths_def)
qed

end
